theory Spec2Isabelle
  imports Complex_Main "HOL-Library.Multiset" "HOL-Library.Countable"
begin

unbundle bit_operations_syntax

section \<open>Data model\<close>

text \<open>
  The solver of \<^verbatim>\<open>src/tsp_solver.py\<close> works on a two-dimensional numpy array. The array is
  modelled by its shape, its element type and its entries. Two element types are modelled:
  \<^verbatim>\<open>int64\<close>, which \<^verbatim>\<open>np.array\<close> gives to a nested list of Python integers, and
  \<^verbatim>\<open>float64\<close>, which it gives to a nested list of floats. An entry is held as a real
  number; an entry of an \<^verbatim>\<open>int64\<close> array is an integer in \<open>[-2^63, 2^63)\<close>. City indices are
  Python integers, modelled by \<open>int\<close>. Exceptions are values of \<open>error\<close>; \<open>ValueError\<close>
  carries its message.
\<close>

datatype error = ValueError string | KeyError | IndexError

datatype np_dtype = Int64 | Float64

record ndarray =
  shape0 :: nat
  shape1 :: nat
  dtype :: np_dtype
  entries :: "nat \<Rightarrow> nat \<Rightarrow> real"

text \<open>
  \<^verbatim>\<open>np.array(rows)\<close> for a non-empty rectangular nested list of floats, and for one of
  Python integers that fit into 64 bits.
\<close>

definition np_array :: "real list list \<Rightarrow> ndarray" where
  "np_array xss =
     \<lparr>shape0 = length xss, shape1 = length (hd xss), dtype = Float64,
      entries = (\<lambda>i j. xss ! i ! j)\<rparr>"

definition np_array_int :: "int list list \<Rightarrow> ndarray" where
  "np_array_int xss =
     \<lparr>shape0 = length xss, shape1 = length (hd xss), dtype = Int64,
      entries = (\<lambda>i j. real_of_int (xss ! i ! j))\<rparr>"

text \<open>
  Addition of two numpy scalars of the array's element type, which is also what adding
  one to the Python integer \<open>0\<close> gives. On \<^verbatim>\<open>int64\<close> the sum wraps around modulo \<open>2^64\<close>
  into \<open>[-2^63, 2^63)\<close> (numpy warns and goes on). On \<^verbatim>\<open>float64\<close> the sum is taken in the
  reals: rounding, infinities and NaN are not modelled.
\<close>

definition wrap64 :: "real \<Rightarrow> real" where
  "wrap64 x = real_of_int ((\<lfloor>x\<rfloor> + 2 ^ 63) mod 2 ^ 64 - 2 ^ 63)"

definition np_add :: "np_dtype \<Rightarrow> real \<Rightarrow> real \<Rightarrow> real" where
  "np_add dt a b = (case dt of Int64 \<Rightarrow> wrap64 (a + b) | Float64 \<Rightarrow> a + b)"

record TSPSolver =
  distance_matrix :: ndarray
  self_n :: nat

text \<open>
  \<^verbatim>\<open>TSPResult\<close>; the field \<^verbatim>\<open>execution_time\<close> is a wall-clock reading and is left out.
\<close>

record TSPResult =
  tour :: "int list"
  cost :: real
  algorithm :: string
  num_cities :: nat
  is_optimal :: bool
  approximation_ratio :: "real option"

section \<open>Construction and validation\<close>

definition validate_input :: "TSPSolver \<Rightarrow> error + unit" where
  "validate_input s =
     (let m = distance_matrix s in
      if shape0 m \<noteq> shape1 m then Inl (ValueError ''Distance matrix must be square'')
      else if self_n s < 2 then Inl (ValueError ''Need at least 2 cities'')
      else if \<not> list_all (\<lambda>i. entries m i i = 0) [0..<min (shape0 m) (shape1 m)]
        then Inl (ValueError ''Diagonal elements must be zero'')
      else Inr ())"

definition TSPSolver_init :: "ndarray \<Rightarrow> error + TSPSolver" where
  "TSPSolver_init m =
     (let s = \<lparr>distance_matrix = m, self_n = shape0 m\<rparr> in
      case validate_input s of Inl e \<Rightarrow> Inl e | Inr u \<Rightarrow> Inr s)"

section \<open>Tour cost\<close>

text \<open>
  numpy integer indexing: an index in \<open>[-len, len)\<close> is accepted (negative ones count
  from the end), anything else raises \<^verbatim>\<open>IndexError\<close>.
\<close>

definition np_index :: "nat \<Rightarrow> int \<Rightarrow> error + nat" where
  "np_index len i =
     (if 0 \<le> i \<and> i < int len then Inr (nat i)
      else if - int len \<le> i \<and> i < 0 then Inr (nat (i + int len))
      else Inl IndexError)"

definition matrix_at :: "ndarray \<Rightarrow> int \<Rightarrow> int \<Rightarrow> error + real" where
  "matrix_at m a b =
     (case np_index (shape0 m) a of
        Inl e \<Rightarrow> Inl e
      | Inr i \<Rightarrow> (case np_index (shape1 m) b of Inl e \<Rightarrow> Inl e | Inr j \<Rightarrow> Inr (entries m i j)))"

text \<open>
  \<^verbatim>\<open>self.distance_matrix[a][b]\<close> where \<open>a\<close> and \<open>b\<close> are loop variables drawn from
  \<^verbatim>\<open>range(self.n)\<close> on a validated solver: the read cannot raise.
\<close>

definition dmat :: "TSPSolver \<Rightarrow> int \<Rightarrow> int \<Rightarrow> real" where
  "dmat s a b = entries (distance_matrix s) (nat a) (nat b)"

fun cost_loop :: "ndarray \<Rightarrow> int list \<Rightarrow> nat list \<Rightarrow> real \<Rightarrow> error + real" where
  "cost_loop m tr [] acc = Inr acc"
| "cost_loop m tr (i # rest) acc =
     (case matrix_at m (tr ! i) (tr ! ((i + 1) mod length tr)) of
        Inl e \<Rightarrow> Inl e
      | Inr d \<Rightarrow> cost_loop m tr rest (np_add (dtype m) acc d))"

definition calculate_tour_cost :: "TSPSolver \<Rightarrow> int list \<Rightarrow> error + real" where
  "calculate_tour_cost s tr = cost_loop (distance_matrix s) tr [0..<length tr] 0"

section \<open>Held-Karp\<close>

text \<open>
  A cost of the table: a number, or \<^verbatim>\<open>float('inf')\<close>. Adding a matrix entry to a number is
  the addition of the array's element type; adding one to infinity gives infinity.
\<close>

datatype ecost = Fin real | PInf

fun eadd :: "np_dtype \<Rightarrow> ecost \<Rightarrow> real \<Rightarrow> ecost" where
  "eadd dt (Fin a) b = Fin (np_add dt a b)"
| "eadd dt PInf b = PInf"

fun eless :: "ecost \<Rightarrow> ecost \<Rightarrow> bool" where
  "eless (Fin a) (Fin b) = (a < b)"
| "eless (Fin a) PInf = True"
| "eless PInf b = False"

text \<open>\<^verbatim>\<open>itertools.combinations(xs, k)\<close>, in its lexicographic order of positions.\<close>

fun combinations :: "'a list \<Rightarrow> nat \<Rightarrow> 'a list list" where
  "combinations xs 0 = [[]]"
| "combinations [] (Suc k) = []"
| "combinations (x # xs) (Suc k) = map ((#) x) (combinations xs k) @ combinations xs (Suc k)"

type_synonym dp_table = "(int \<times> int) \<Rightarrow> (ecost \<times> int) option"

text \<open>\<^verbatim>\<open>dp.get(key, (float('inf'), -1))\<close>\<close>

definition dp_get :: "dp_table \<Rightarrow> int \<times> int \<Rightarrow> ecost \<times> int" where
  "dp_get dp key = (case dp key of None \<Rightarrow> (PInf, - 1) | Some v \<Rightarrow> v)"

text \<open>\<^verbatim>\<open>mask & ~(1 << i)\<close>\<close>

definition clear_bit :: "int \<Rightarrow> int \<Rightarrow> int" where
  "clear_bit bm i = bm AND NOT (push_bit (nat i) 1)"

text \<open>One pass of the innermost loop (\<^verbatim>\<open>for prev in subset\<close>).\<close>

definition hk_prev_step ::
  "TSPSolver \<Rightarrow> dp_table \<Rightarrow> int list \<Rightarrow> int \<Rightarrow> int \<Rightarrow> ecost \<times> int \<Rightarrow> int \<Rightarrow> ecost \<times> int" where
  "hk_prev_step s dp subs prev_bits lst acc prev =
     (if prev = lst \<or> prev \<notin> set subs then acc
      else
        let prev_cost = fst (dp_get dp (prev_bits, prev));
            c = eadd (dtype (distance_matrix s)) prev_cost (dmat s prev lst)
        in if eless c (fst acc) then (c, prev) else acc)"

definition hk_entry :: "TSPSolver \<Rightarrow> dp_table \<Rightarrow> int list \<Rightarrow> int \<Rightarrow> int \<Rightarrow> ecost \<times> int" where
  "hk_entry s dp subs bits lst =
     foldl (hk_prev_step s dp subs (clear_bit bits lst) lst) (PInf, - 1) subs"

text \<open>One pass of \<^verbatim>\<open>for last in subset\<close>.\<close>

definition hk_last_step :: "TSPSolver \<Rightarrow> int list \<Rightarrow> int \<Rightarrow> dp_table \<Rightarrow> int \<Rightarrow> dp_table" where
  "hk_last_step s subs bits dp lst =
     (if lst = 0 then dp else dp((bits, lst) \<mapsto> hk_entry s dp subs bits lst))"

definition subset_bits :: "int list \<Rightarrow> int" where
  "subset_bits subs = sum_list (map (\<lambda>i. push_bit (nat i) 1) subs)"

text \<open>One pass of \<^verbatim>\<open>for subset in combinations(range(1, self.n), subset_size - 1)\<close>.\<close>

definition hk_subset_step :: "TSPSolver \<Rightarrow> dp_table \<Rightarrow> int list \<Rightarrow> dp_table" where
  "hk_subset_step s dp comb =
     (let subs = 0 # comb; bits = subset_bits subs
      in foldl (hk_last_step s subs bits) dp subs)"

text \<open>One pass of \<^verbatim>\<open>for subset_size in range(2, self.n + 1)\<close>.\<close>

definition hk_size_step :: "TSPSolver \<Rightarrow> dp_table \<Rightarrow> nat \<Rightarrow> dp_table" where
  "hk_size_step s dp subset_size =
     foldl (hk_subset_step s) dp (combinations (map int [1..<self_n s]) (subset_size - 1))"

definition hk_table :: "TSPSolver \<Rightarrow> dp_table" where
  "hk_table s = foldl (hk_size_step s) (Map.empty((1, 0) \<mapsto> (Fin 0, - 1))) [2..<self_n s + 1]"

text \<open>One pass of the closing loop \<^verbatim>\<open>for i in range(1, self.n)\<close>.\<close>

definition hk_final_step :: "TSPSolver \<Rightarrow> dp_table \<Rightarrow> int \<Rightarrow> ecost \<times> int \<Rightarrow> int \<Rightarrow> ecost \<times> int" where
  "hk_final_step s dp all_cities_mask acc i =
     (let c = eadd (dtype (distance_matrix s)) (fst (dp_get dp (all_cities_mask, i))) (dmat s i 0)
      in if eless c (fst acc) then (c, i) else acc)"

text \<open>
  The loop of \<^verbatim>\<open>reconstruct_path_hk\<close>. On an arbitrary table it need not end, so
  not returning is the value \<open>None\<close>. A missing key raises \<^verbatim>\<open>KeyError\<close>, a negative
  shift count \<^verbatim>\<open>ValueError\<close>.
\<close>

partial_function (option) hk_walk ::
  "dp_table \<Rightarrow> int \<Rightarrow> int \<Rightarrow> int list \<Rightarrow> (error + int list) option" where
  "hk_walk dp current_mask current path =
     (if current \<noteq> 0 then
        (case dp (current_mask, current) of
           None \<Rightarrow> Some (Inl KeyError)
         | Some v \<Rightarrow>
             (let prev = snd v in
              if prev = - 1 then Some (Inr path)
              else if current < 0 then Some (Inl (ValueError ''negative shift count''))
              else hk_walk dp (clear_bit current_mask current) prev (path @ [prev])))
      else Some (Inr path))"

definition reconstruct_path_hk :: "dp_table \<Rightarrow> int \<Rightarrow> int \<Rightarrow> (error + int list) option" where
  "reconstruct_path_hk dp bm lst =
     (case hk_walk dp bm lst [lst] of
        None \<Rightarrow> None
      | Some (Inl e) \<Rightarrow> Some (Inl e)
      | Some (Inr path) \<Rightarrow> Some (Inr (rev path)))"

text \<open>
  \<^verbatim>\<open>held_karp\<close>. When the closing loop leaves \<^verbatim>\<open>min_cost\<close> at infinity it also leaves
  \<^verbatim>\<open>last_city\<close> at -1, and the table has no key with last city -1, so the
  reconstruction has raised \<^verbatim>\<open>KeyError\<close> before a result is built; the last branch
  below is that case.
\<close>

definition held_karp :: "TSPSolver \<Rightarrow> (error + TSPResult) option" where
  "held_karp s =
     (if self_n s > 20 then
        Some (Inl (ValueError ''Held-Karp: Too many cities (max 20 for practical computation)''))
      else
        let dp = hk_table s;
            all_cities_mask = push_bit (self_n s) 1 - 1;
            fin = foldl (hk_final_step s dp all_cities_mask) (PInf, - 1) (map int [1..<self_n s])
        in case reconstruct_path_hk dp all_cities_mask (snd fin) of
             None \<Rightarrow> None
           | Some (Inl e) \<Rightarrow> Some (Inl e)
           | Some (Inr tr) \<Rightarrow>
               (case fst fin of
                  Fin c \<Rightarrow>
                    Some (Inr \<lparr>tour = tr, cost = c, algorithm = ''Held-Karp (Exact DP)'',
                                num_cities = self_n s, is_optimal = True,
                                approximation_ratio = None\<rparr>)
                | PInf \<Rightarrow> Some (Inl KeyError)))"

section \<open>Python sets\<close>

text \<open>
  A Python set of integers is modelled by the list of its elements, without repetition.
  The language does not fix the order in which a set is iterated, nor the element that
  \<^verbatim>\<open>pop()\<close> takes; both are parameters of the model. The theorems below hold for every
  choice that enumerates exactly the elements of the set.
\<close>

record set_impl =
  iter_order :: "int list \<Rightarrow> int list"
  pop_elem :: "int list \<Rightarrow> int"

definition set_impl_ok :: "set_impl \<Rightarrow> bool" where
  "set_impl_ok impl =
     ((\<forall>xs. set (iter_order impl xs) = set xs) \<and> (\<forall>xs. xs \<noteq> [] \<longrightarrow> pop_elem impl xs \<in> set xs))"

text \<open>An implementation that iterates in list order and pops the first element.\<close>

definition list_impl :: set_impl where
  "list_impl = \<lparr>iter_order = (\<lambda>xs. xs), pop_elem = hd\<rparr>"

text \<open>\<^verbatim>\<open>min(xs, key=f)\<close>: the first minimal element; \<^verbatim>\<open>ValueError\<close> on an empty argument.\<close>

fun py_min_key :: "('a \<Rightarrow> real) \<Rightarrow> 'a list \<Rightarrow> error + 'a" where
  "py_min_key f [] = Inl (ValueError ''min() arg is an empty sequence'')"
| "py_min_key f (x # xs) = Inr (foldl (\<lambda>b y. if f y < f b then y else b) x xs)"

section \<open>Nearest neighbour\<close>

function nn_loop ::
  "set_impl \<Rightarrow> TSPSolver \<Rightarrow> int list \<Rightarrow> int list \<Rightarrow> int \<Rightarrow> real \<Rightarrow> error + (int list \<times> int \<times> real)" where
  "nn_loop impl s unvisited tr current total_cost =
     (if unvisited \<noteq> [] then
        (case py_min_key (\<lambda>x. dmat s current x) (iter_order impl unvisited) of
           Inl e \<Rightarrow> Inl e
         | Inr nearest \<Rightarrow>
             if nearest \<in> set unvisited then
               nn_loop impl s (remove1 nearest unvisited) (tr @ [nearest]) nearest
                 (np_add (dtype (distance_matrix s)) total_cost (dmat s current nearest))
             else Inl KeyError)
      else Inr (tr, current, total_cost))"
  by pat_completeness auto
termination
  by (relation "measure (\<lambda>(impl, s, unvisited, tr, current, total_cost). length unvisited)")
     (auto simp: length_remove1 intro: length_pos_if_in_set)

definition nearest_neighbor :: "set_impl \<Rightarrow> TSPSolver \<Rightarrow> int \<Rightarrow> error + TSPResult" where
  "nearest_neighbor impl s start =
     (let unvisited = map int [0..<self_n s] in
      if start \<notin> set unvisited then Inl KeyError
      else
        (case nn_loop impl s (remove1 start unvisited) [start] start 0 of
           Inl e \<Rightarrow> Inl e
         | Inr (tr, current, total_cost) \<Rightarrow>
             Inr \<lparr>tour = tr,
                  cost = np_add (dtype (distance_matrix s)) total_cost (dmat s current start),
                  algorithm = ''Nearest Neighbor'', num_cities = self_n s, is_optimal = False,
                  approximation_ratio = None\<rparr>))"

section \<open>Christofides\<close>

text \<open>
  The heap of \<^verbatim>\<open>compute_mst\<close> holds tuples \<^verbatim>\<open>(weight, u, v)\<close>, compared
  lexicographically. \<^verbatim>\<open>heappop\<close> returns a least tuple; the heap is modelled by the list of
  its tuples, and \<^verbatim>\<open>heappop\<close> by taking a least one out.
\<close>

type_synonym heap_entry = "real \<times> int \<times> int"

definition tuple_less :: "heap_entry \<Rightarrow> heap_entry \<Rightarrow> bool" where
  "tuple_less a b =
     (fst a < fst b \<or>
      (fst a = fst b \<and>
        (fst (snd a) < fst (snd b) \<or> (fst (snd a) = fst (snd b) \<and> snd (snd a) < snd (snd b)))))"

definition heap_min :: "heap_entry list \<Rightarrow> heap_entry" where
  "heap_min es = foldl (\<lambda>m e. if tuple_less e m then e else m) (hd es) (tl es)"

definition push_edges :: "TSPSolver \<Rightarrow> int list \<Rightarrow> int \<Rightarrow> heap_entry list" where
  "push_edges s visited v =
     map (\<lambda>j. (dmat s v j, v, j)) (filter (\<lambda>j. j \<notin> set visited) (map int [0..<self_n s]))"

function prim_loop ::
  "TSPSolver \<Rightarrow> int list \<Rightarrow> heap_entry list \<Rightarrow> (int \<times> int) list \<Rightarrow> (int \<times> int) list" where
  "prim_loop s visited edges mst =
     (if length visited < self_n s \<and> edges \<noteq> [] then
        (let e = heap_min edges; edges1 = remove1 e edges; u = fst (snd e); v = snd (snd e) in
         if v \<in> set visited then prim_loop s visited edges1 mst
         else
           (let visited1 = visited @ [v] in
            prim_loop s visited1 (edges1 @ push_edges s visited1 v) (mst @ [(u, v)])))
      else mst)"
  by pat_completeness auto
termination
proof (relation "measures [\<lambda>(s, visited, edges, mst). self_n s - length visited,
                           \<lambda>(s, visited, edges, mst). length edges]", goal_cases)
  case 1
  show ?case by simp
next
  case (2 s visited edges mst e edges1 u v)
  have "foldl (\<lambda>m e. if tuple_less e m then e else m) a xs \<in> set (a # xs)" for a xs
    by (induction xs arbitrary: a) auto
  from this [of "hd edges" "tl edges"] 2(1) have "heap_min edges \<in> set edges"
    by (cases edges) (auto simp: heap_min_def)
  with 2 show ?case
    by (auto simp: length_remove1 intro: length_pos_if_in_set)
next
  case 3
  then show ?case by auto
qed

definition compute_mst :: "TSPSolver \<Rightarrow> (int \<times> int) list" where
  "compute_mst s =
     prim_loop s [0] (map (\<lambda>j. (dmat s 0 j, 0, j)) (map int [1..<self_n s])) []"

definition bump_degree :: "nat list \<Rightarrow> int \<times> int \<Rightarrow> nat list" where
  "bump_degree degree e =
     (let d1 = degree[nat (fst e) := degree ! nat (fst e) + 1]
      in d1[nat (snd e) := d1 ! nat (snd e) + 1])"

definition find_odd_degree_vertices :: "TSPSolver \<Rightarrow> (int \<times> int) list \<Rightarrow> int list" where
  "find_odd_degree_vertices s mst =
     (let degree = foldl bump_degree (replicate (self_n s) 0) mst
      in filter (\<lambda>i. degree ! nat i mod 2 = 1) (map int [0..<self_n s]))"

function matching_loop ::
  "set_impl \<Rightarrow> TSPSolver \<Rightarrow> int list \<Rightarrow> (int \<times> int) list \<Rightarrow> error + (int \<times> int) list" where
  "matching_loop impl s unmatched matching =
     (if length unmatched > 0 then
        (let v = pop_elem impl unmatched in
         if v \<notin> set unmatched then Inl KeyError
         else
           (let unmatched1 = remove1 v unmatched in
            case py_min_key (\<lambda>u. dmat s v u) (iter_order impl unmatched1) of
              Inl e \<Rightarrow> Inl e
            | Inr nearest \<Rightarrow>
                if nearest \<in> set unmatched1 then
                  matching_loop impl s (remove1 nearest unmatched1) (matching @ [(v, nearest)])
                else Inl KeyError))
      else Inr matching)"
  by pat_completeness auto
termination
  by (relation "measure (\<lambda>(impl, s, unmatched, matching). length unmatched)")
     (auto simp: length_remove1)

definition min_weight_matching ::
  "set_impl \<Rightarrow> TSPSolver \<Rightarrow> int list \<Rightarrow> error + (int \<times> int) list" where
  "min_weight_matching impl s odd_vertices = matching_loop impl s (remdups odd_vertices) []"

text \<open>
  The adjacency dictionary has the keys \<^verbatim>\<open>0..n-1\<close>; it is modelled by the list of its
  values, the key being the position. A key outside that range raises \<^verbatim>\<open>KeyError\<close>.
\<close>

type_synonym graph = "int list list"

definition graph_get :: "graph \<Rightarrow> int \<Rightarrow> int list option" where
  "graph_get g k = (if 0 \<le> k \<and> k < int (length g) then Some (g ! nat k) else None)"

definition add_edge :: "graph \<Rightarrow> int \<times> int \<Rightarrow> graph" where
  "add_edge g e =
     (let g1 = g[nat (fst e) := g ! nat (fst e) @ [snd e]]
      in g1[nat (snd e) := g1 ! nat (snd e) @ [fst e]])"

definition combine_mst_matching ::
  "TSPSolver \<Rightarrow> (int \<times> int) list \<Rightarrow> (int \<times> int) list \<Rightarrow> graph" where
  "combine_mst_matching s mst matching = foldl add_edge (replicate (self_n s) []) (mst @ matching)"

function euler_loop :: "graph \<Rightarrow> int list \<Rightarrow> int list \<Rightarrow> error + int list" where
  "euler_loop g curr_path circuit =
     (if curr_path \<noteq> [] then
        (let curr = last curr_path in
         case graph_get g curr of
           None \<Rightarrow> Inl KeyError
         | Some adj \<Rightarrow>
             if adj \<noteq> [] then
               (let next_vertex = last adj; g1 = g[nat curr := butlast adj] in
                case graph_get g1 next_vertex of
                  None \<Rightarrow> Inl KeyError
                | Some adjn \<Rightarrow>
                    if curr \<in> set adjn then
                      euler_loop (g1[nat next_vertex := remove1 curr adjn])
                        (curr_path @ [next_vertex]) circuit
                    else Inl (ValueError ''list.remove(x): x not in list''))
             else euler_loop g (butlast curr_path) (circuit @ [curr]))
      else Inr (rev circuit))"
  by pat_completeness auto
termination
proof (relation "measure (\<lambda>(g, curr_path, circuit). 2 * sum_list (map length g) + length curr_path)",
    goal_cases)
  case 1
  show ?case by simp
next
  case (2 g curr_path circuit curr adj next_vertex g1 adjn)
  have upd: "sum_list (map length (h[k := x])) + length (h ! k) = sum_list (map length h) + length x"
    if "k < length h" for h :: graph and k x
  proof -
    have "length (h ! k) \<le> sum_list (map length h)"
      using that by (intro member_le_sum_list) simp_all
    with that show ?thesis by (simp add: map_update sum_list_update)
  qed
  from 2 have c: "nat curr < length g" "g ! nat curr = adj"
    by (auto simp: graph_get_def split: if_splits)
  from 2 have n: "nat next_vertex < length g1" "g1 ! nat next_vertex = adjn"
    by (auto simp: graph_get_def split: if_splits)
  have l1: "length adj > 0" using 2 by simp
  have l2: "length adjn > 0" using 2 by (auto intro: length_pos_if_in_set)
  have e1: "sum_list (map length g1) + length adj = sum_list (map length g) + (length adj - 1)"
    using upd [OF c(1), of "butlast adj"] c(2) 2 by simp
  have e2: "sum_list (map length (g1[nat next_vertex := remove1 curr adjn])) + length adjn
      = sum_list (map length g1) + (length adjn - 1)"
    using upd [OF n(1), of "remove1 curr adjn"] n(2) 2 by (simp add: length_remove1)
  from e1 e2 l1 l2
  have "2 * sum_list (map length (g1[nat next_vertex := remove1 curr adjn])) + length curr_path + 1
      < 2 * sum_list (map length g) + length curr_path"
    by arith
  then show ?case by simp
next
  case (3 g curr_path circuit curr adj)
  then show ?case by (cases curr_path rule: rev_cases) auto
qed

definition find_eulerian_circuit :: "graph \<Rightarrow> error + int list" where
  "find_eulerian_circuit g = euler_loop g [0] []"

definition shortcut_step :: "int list \<times> int set \<Rightarrow> int \<Rightarrow> int list \<times> int set" where
  "shortcut_step st city =
     (if city \<notin> snd st then (fst st @ [city], insert city (snd st)) else st)"

definition make_hamiltonian :: "int list \<Rightarrow> int list" where
  "make_hamiltonian circuit = fst (foldl shortcut_step ([], {}) circuit)"

definition christofides :: "set_impl \<Rightarrow> TSPSolver \<Rightarrow> error + TSPResult" where
  "christofides impl s =
     (let mst = compute_mst s;
          odd_vertices = find_odd_degree_vertices s mst
      in case min_weight_matching impl s odd_vertices of
           Inl e \<Rightarrow> Inl e
         | Inr matching \<Rightarrow>
             (case find_eulerian_circuit (combine_mst_matching s mst matching) of
                Inl e \<Rightarrow> Inl e
              | Inr circuit \<Rightarrow>
                  (let tr = make_hamiltonian circuit in
                   case calculate_tour_cost s tr of
                     Inl e \<Rightarrow> Inl e
                   | Inr c \<Rightarrow>
                       Inr \<lparr>tour = tr, cost = c, algorithm = ''Christofides'',
                            num_cities = self_n s, is_optimal = False,
                            approximation_ratio = Some 1.5\<rparr>)))"

section \<open>2-opt\<close>

text \<open>\<^verbatim>\<open>tour[:i] + tour[i:j+1][::-1] + tour[j+1:]\<close>\<close>

definition reverse_segment :: "int list \<Rightarrow> nat \<Rightarrow> nat \<Rightarrow> int list" where
  "reverse_segment tr i j = take i tr @ rev (drop i (take (j + 1) tr)) @ drop (j + 1) tr"

text \<open>
  The two \<^verbatim>\<open>for\<close> loops of one scan. The result is the tour, its cost and the flag
  \<^verbatim>\<open>improved\<close>; both loops stop at the first candidate that is strictly cheaper.
\<close>

fun two_opt_inner ::
  "TSPSolver \<Rightarrow> int list \<Rightarrow> real \<Rightarrow> nat \<Rightarrow> nat list \<Rightarrow> error + (int list \<times> real \<times> bool)" where
  "two_opt_inner s tr best_cost i [] = Inr (tr, best_cost, False)"
| "two_opt_inner s tr best_cost i (j # rest) =
     (let new_tour = reverse_segment tr i j in
      case calculate_tour_cost s new_tour of
        Inl e \<Rightarrow> Inl e
      | Inr new_cost \<Rightarrow>
          if new_cost < best_cost then Inr (new_tour, new_cost, True)
          else two_opt_inner s tr best_cost i rest)"

fun two_opt_outer ::
  "TSPSolver \<Rightarrow> int list \<Rightarrow> real \<Rightarrow> nat list \<Rightarrow> error + (int list \<times> real \<times> bool)" where
  "two_opt_outer s tr best_cost [] = Inr (tr, best_cost, False)"
| "two_opt_outer s tr best_cost (i # rest) =
     (case two_opt_inner s tr best_cost i [i + 1..<self_n s] of
        Inl e \<Rightarrow> Inl e
      | Inr r \<Rightarrow> if snd (snd r) then Inr r else two_opt_outer s tr best_cost rest)"

function two_opt_while ::
  "TSPSolver \<Rightarrow> int \<Rightarrow> int list \<Rightarrow> real \<Rightarrow> bool \<Rightarrow> int \<Rightarrow> error + (int list \<times> real)" where
  "two_opt_while s max_iterations tr best_cost improved iteration =
     (if improved \<and> iteration < max_iterations then
        (case two_opt_outer s tr best_cost [1..<self_n s - 1] of
           Inl e \<Rightarrow> Inl e
         | Inr r \<Rightarrow>
             two_opt_while s max_iterations (fst r) (fst (snd r)) (snd (snd r)) (iteration + 1))
      else Inr (tr, best_cost))"
  by pat_completeness auto
termination
  by (relation "measure (\<lambda>(s, max_iterations, tr, best_cost, improved, iteration).
        nat (max_iterations - iteration))") auto

definition two_opt :: "TSPSolver \<Rightarrow> int list option \<Rightarrow> int \<Rightarrow> error + TSPResult" where
  "two_opt s initial_tour max_iterations =
     (let tr = (case initial_tour of None \<Rightarrow> map int [0..<self_n s] | Some t \<Rightarrow> t) in
      case calculate_tour_cost s tr of
        Inl e \<Rightarrow> Inl e
      | Inr best_cost \<Rightarrow>
          (case two_opt_while s max_iterations tr best_cost True 0 of
             Inl e \<Rightarrow> Inl e
           | Inr r \<Rightarrow>
               Inr \<lparr>tour = fst r, cost = snd r, algorithm = ''2-opt'', num_cities = self_n s,
                    is_optimal = False, approximation_ratio = None\<rparr>))"

section \<open>Dispatch\<close>

text \<open>
  The dictionary \<^verbatim>\<open>algorithms\<close> of \<^verbatim>\<open>solve\<close>, each entry with the result of calling it.
  Defaults: \<^verbatim>\<open>nearest_neighbor(start=0)\<close>, \<^verbatim>\<open>two_opt(initial_tour=None, max_iterations=1000)\<close>.
\<close>

definition algorithms :: "set_impl \<Rightarrow> TSPSolver \<Rightarrow> (string \<times> (error + TSPResult) option) list" where
  "algorithms impl s =
     [(''held-karp'', held_karp s),
      (''christofides'', Some (christofides impl s)),
      (''nearest-neighbor'', Some (nearest_neighbor impl s 0)),
      (''2-opt'', Some (two_opt s None 1000))]"

definition solve :: "set_impl \<Rightarrow> TSPSolver \<Rightarrow> string \<Rightarrow> (error + TSPResult) option" where
  "solve impl s alg =
     (if alg = ''auto'' then
        (if self_n s \<le> 15 then held_karp s
         else if self_n s \<le> 100 then Some (christofides impl s)
         else
           (case nearest_neighbor impl s 0 of
              Inl e \<Rightarrow> Some (Inl e)
            | Inr nn_result \<Rightarrow> Some (two_opt s (Some (tour nn_result)) 1000)))
      else
        (case map_of (algorithms impl s) alg of
           None \<Rightarrow> Some (Inl (ValueError (''Unknown algorithm: '' @ alg)))
         | Some r \<Rightarrow> r))"

section \<open>Example instances\<close>

text \<open>
  The 4-city and 5-city matrices of the test suite, which are \<^verbatim>\<open>int64\<close> arrays, and a
  \<^verbatim>\<open>float64\<close> matrix with equal distances.
\<close>

definition M4 :: ndarray where
  "M4 = np_array_int [[0, 10, 15, 20], [10, 0, 35, 25], [15, 35, 0, 30], [20, 25, 30, 0]]"

definition S4 :: TSPSolver where
  "S4 = \<lparr>distance_matrix = M4, self_n = 4\<rparr>"

definition M5 :: ndarray where
  "M5 = np_array_int [[0, 10, 15, 20, 25], [10, 0, 35, 25, 30], [15, 35, 0, 30, 20],
                      [20, 25, 30, 0, 15], [25, 30, 20, 15, 0]]"

definition S5 :: TSPSolver where
  "S5 = \<lparr>distance_matrix = M5, self_n = 5\<rparr>"

definition uniform_matrix :: "nat \<Rightarrow> ndarray" where
  "uniform_matrix k =
     \<lparr>shape0 = k, shape1 = k, dtype = Float64, entries = (\<lambda>i j. if i = j then 0 else 10)\<rparr>"

definition uniform_solver :: "nat \<Rightarrow> TSPSolver" where
  "uniform_solver k = \<lparr>distance_matrix = uniform_matrix k, self_n = k\<rparr>"





section \<open>Specification-level notions\<close>

text \<open>An index numpy accepts for an axis of the given length.\<close>

definition idx_ok :: "nat \<Rightarrow> int \<Rightarrow> bool" where
  "idx_ok len i = (- int len \<le> i \<and> i < int len)"

definition tour_ok :: "TSPSolver \<Rightarrow> int list \<Rightarrow> bool" where
  "tour_ok s tr =
     list_all (\<lambda>x. idx_ok (shape0 (distance_matrix s)) x \<and> idx_ok (shape1 (distance_matrix s)) x) tr"

text \<open>
  The position pairs one scan of 2-opt visits, in the order it visits them, and the list of
  all pairs \<open>i < j\<close>. \<open>first_improvement_search\<close> is the local search in the words of the
  specification: scan the pairs in order, accept the first reversal that lowers the cost,
  start again; stop when no pair improves or the budget is used up.
\<close>

definition scan_pairs :: "nat \<Rightarrow> (nat \<times> nat) list" where
  "scan_pairs n = concat (map (\<lambda>i. map (Pair i) [i + 1..<n]) [1..<n - 1])"

definition all_pairs :: "nat \<Rightarrow> (nat \<times> nat) list" where
  "all_pairs n = concat (map (\<lambda>i. map (Pair i) [i + 1..<n]) [0..<n])"

definition improving :: "TSPSolver \<Rightarrow> int list \<Rightarrow> nat \<times> nat \<Rightarrow> bool" where
  "improving s tr p =
     (case calculate_tour_cost s (reverse_segment tr (fst p) (snd p)) of
        Inl e \<Rightarrow> False
      | Inr c' \<Rightarrow> (case calculate_tour_cost s tr of Inl e \<Rightarrow> False | Inr c \<Rightarrow> c' < c))"

definition scan_step :: "TSPSolver \<Rightarrow> (nat \<times> nat) list \<Rightarrow> int list \<Rightarrow> int list option" where
  "scan_step s pairs tr =
     (case find (improving s tr) pairs of
        None \<Rightarrow> None
      | Some p \<Rightarrow> Some (reverse_segment tr (fst p) (snd p)))"

fun first_improvement_search ::
  "TSPSolver \<Rightarrow> (nat \<times> nat) list \<Rightarrow> nat \<Rightarrow> int list \<Rightarrow> int list" where
  "first_improvement_search s pairs 0 tr = tr"
| "first_improvement_search s pairs (Suc k) tr =
     (case scan_step s pairs tr of
        None \<Rightarrow> tr
      | Some t \<Rightarrow> first_improvement_search s pairs k t)"

text \<open>An asymmetric 4-city matrix: the tour 0, 2, 3, 1 costs 4, every other tour more.\<close>

definition M_asym :: ndarray where
  "M_asym = np_array_int [[0, 10, 1, 10], [1, 0, 10, 10], [10, 10, 0, 1], [10, 1, 10, 0]]"

definition S_asym :: TSPSolver where
  "S_asym = \<lparr>distance_matrix = M_asym, self_n = 4\<rparr>"

text \<open>
  The cost of a path and of a closed tour as sums over consecutive cities, and the
  Hamiltonian cycles of \<open>n\<close> cities: the lists of length \<open>n\<close> whose entries are exactly
  \<open>0, ..., n - 1\<close>.
\<close>

definition edge_sum :: "TSPSolver \<Rightarrow> (int \<times> int) list \<Rightarrow> real" where
  "edge_sum s es = sum_list (map (\<lambda>e. dmat s (fst e) (snd e)) es)"

definition path_cost :: "TSPSolver \<Rightarrow> int list \<Rightarrow> real" where
  "path_cost s xs = edge_sum s (zip xs (tl xs))"


definition is_tour :: "nat \<Rightarrow> int list \<Rightarrow> bool" where
  "is_tour n tr = (length tr = n \<and> set tr = set (map int [0..<n]))"

text \<open>
  The same two sums as the code forms them: from \<open>0\<close>, edge by edge in the order of the
  list, with the addition of the array's element type.
\<close>

definition np_sum :: "TSPSolver \<Rightarrow> (int \<times> int) list \<Rightarrow> real" where
  "np_sum s es =
     foldl (np_add (dtype (distance_matrix s))) 0 (map (\<lambda>e. dmat s (fst e) (snd e)) es)"

definition np_path_cost :: "TSPSolver \<Rightarrow> int list \<Rightarrow> real" where
  "np_path_cost s xs = np_sum s (zip xs (tl xs))"

definition np_cyclic_cost :: "TSPSolver \<Rightarrow> int list \<Rightarrow> real" where
  "np_cyclic_cost s xs = np_sum s (zip xs (rotate1 xs))"

text \<open>
  No sum of at most \<open>n\<close> entries overflows: the array holds floats, or it holds integers
  of absolute value at most \<open>B\<close> with \<open>n * B < 2^63\<close>.
\<close>

definition int64_bound :: "TSPSolver \<Rightarrow> real \<Rightarrow> bool" where
  "int64_bound s B =
     ((\<forall>i<self_n s. \<forall>j<self_n s.
         entries (distance_matrix s) i j \<in> \<int> \<and> \<bar>entries (distance_matrix s) i j\<bar> \<le> B) \<and>
      real (self_n s) * B < 2 ^ 63)"

definition no_overflow :: "TSPSolver \<Rightarrow> bool" where
  "no_overflow s = (dtype (distance_matrix s) = Int64 \<longrightarrow> (\<exists>B. int64_bound s B))"










section \<open>2-opt on list objects\<close>

text \<open>
  Python lists are objects: the caller of \<^verbatim>\<open>two_opt\<close> and the function share the list
  \<^verbatim>\<open>initial_tour\<close>. To state what the function does to that object, \<^verbatim>\<open>two_opt\<close> is
  modelled a second time with the list objects made explicit. The store is the list of all
  list objects, an object's address is its position, and creating an object appends it.
  A slice, a reversed slice and a concatenation each create a new object; \<^verbatim>\<open>two_opt\<close>
  contains no assignment to an element of a list and calls no method that changes one.
\<close>

type_synonym store = "int list list"

definition alloc :: "store \<Rightarrow> int list \<Rightarrow> store \<times> nat" where
  "alloc st xs = (st @ [xs], length st)"

text \<open>
  \<^verbatim>\<open>tour[:i] + tour[i:j+1][::-1] + tour[j+1:]\<close>, in the order Python evaluates it: the two
  slices, the reversed copy, the first sum, the third slice, the second sum.
\<close>

definition new_tour_st :: "store \<Rightarrow> nat \<Rightarrow> nat \<Rightarrow> nat \<Rightarrow> store \<times> nat" where
  "new_tour_st st tr i j =
     (case alloc st (take i (st ! tr)) of (st1, a) \<Rightarrow>
      case alloc st1 (drop i (take (j + 1) (st1 ! tr))) of (st2, b) \<Rightarrow>
      case alloc st2 (rev (st2 ! b)) of (st3, c) \<Rightarrow>
      case alloc st3 (st3 ! a @ st3 ! c) of (st4, d) \<Rightarrow>
      case alloc st4 (drop (j + 1) (st4 ! tr)) of (st5, e) \<Rightarrow>
      alloc st5 (st5 ! d @ st5 ! e))"

text \<open>
  The loops of \<^verbatim>\<open>two_opt\<close>; \<open>tr\<close> is the address of the object the variable \<^verbatim>\<open>tour\<close> refers
  to. \<^verbatim>\<open>tour = new_tour\<close> makes the variable refer to the new object. The functions return
  the store they leave behind, also when they raise.
\<close>

fun two_opt_inner_st ::
  "TSPSolver \<Rightarrow> store \<Rightarrow> nat \<Rightarrow> real \<Rightarrow> nat \<Rightarrow> nat list \<Rightarrow> store \<times> (error + (nat \<times> real \<times> bool))" where
  "two_opt_inner_st s st tr best_cost i [] = (st, Inr (tr, best_cost, False))"
| "two_opt_inner_st s st tr best_cost i (j # rest) =
     (case new_tour_st st tr i j of (st1, new_tour) \<Rightarrow>
        (case calculate_tour_cost s (st1 ! new_tour) of
           Inl e \<Rightarrow> (st1, Inl e)
         | Inr new_cost \<Rightarrow>
             if new_cost < best_cost then (st1, Inr (new_tour, new_cost, True))
             else two_opt_inner_st s st1 tr best_cost i rest))"

fun two_opt_outer_st ::
  "TSPSolver \<Rightarrow> store \<Rightarrow> nat \<Rightarrow> real \<Rightarrow> nat list \<Rightarrow> store \<times> (error + (nat \<times> real \<times> bool))" where
  "two_opt_outer_st s st tr best_cost [] = (st, Inr (tr, best_cost, False))"
| "two_opt_outer_st s st tr best_cost (i # rest) =
     (case two_opt_inner_st s st tr best_cost i [i + 1..<self_n s] of
        (st1, Inl e) \<Rightarrow> (st1, Inl e)
      | (st1, Inr r) \<Rightarrow>
          if snd (snd r) then (st1, Inr r) else two_opt_outer_st s st1 tr best_cost rest)"

function two_opt_while_st ::
  "TSPSolver \<Rightarrow> store \<Rightarrow> int \<Rightarrow> nat \<Rightarrow> real \<Rightarrow> bool \<Rightarrow> int \<Rightarrow> store \<times> (error + (nat \<times> real))" where
  "two_opt_while_st s st max_iterations tr best_cost improved iteration =
     (if improved \<and> iteration < max_iterations then
        (case two_opt_outer_st s st tr best_cost [1..<self_n s - 1] of
           (st1, Inl e) \<Rightarrow> (st1, Inl e)
         | (st1, Inr r) \<Rightarrow>
             two_opt_while_st s st1 max_iterations (fst r) (fst (snd r)) (snd (snd r))
               (iteration + 1))
      else (st, Inr (tr, best_cost)))"
  by pat_completeness auto

termination
  by (relation "measure (\<lambda>(s, st, max_iterations, tr, best_cost, improved, iteration).
        nat (max_iterations - iteration))") auto

text \<open>
  \<^verbatim>\<open>two_opt\<close> called with the address of the caller's list, or with \<^verbatim>\<open>None\<close>. The result
  record refers to the object \<^verbatim>\<open>tour\<close>; here the function returns that address and the
  cost (the other fields are constants).
\<close>

definition two_opt_st ::
  "TSPSolver \<Rightarrow> store \<Rightarrow> nat option \<Rightarrow> int \<Rightarrow> store \<times> (error + (nat \<times> real))" where
  "two_opt_st s st initial_tour max_iterations =
     (case (case initial_tour of
              None \<Rightarrow> alloc st (map int [0..<self_n s])
            | Some a \<Rightarrow> alloc st (st ! a)) of
        (st1, tr) \<Rightarrow>
          (case calculate_tour_cost s (st1 ! tr) of
             Inl e \<Rightarrow> (st1, Inl e)
           | Inr best_cost \<Rightarrow> two_opt_while_st s st1 max_iterations tr best_cost True 0))"

text \<open>
  How a run on the store corresponds to a run of the functions on list values: the store
  has only grown, an error is the same error, and a returned address holds the returned
  list and is \<open>tr\<close> or the address of an object created during the run.
\<close>

definition st_rel ::
  "store \<Rightarrow> nat \<Rightarrow> store \<Rightarrow> error + (int list \<times> 'x) \<Rightarrow> error + (nat \<times> 'x) \<Rightarrow> bool" where
  "st_rel st tr st' pr sr =
     ((\<exists>ext. st' = st @ ext) \<and>
      (case pr of
         Inl e \<Rightarrow> sr = Inl e
       | Inr r \<Rightarrow>
           (\<exists>a. sr = Inr (a, snd r) \<and> a < length st' \<and> st' ! a = fst r \<and>
                (a = tr \<or> length st \<le> a))))"

declare hk_walk.simps [code]

section \<open>Construction\<close>


lemma init_S5: "TSPSolver_init M5 = Inr S5"
  unfolding M5_def S5_def
  by (simp add: TSPSolver_init_def validate_input_def np_array_def np_array_int_def upt_rec)

lemma init_uniform: "2 \<le> k \<Longrightarrow> TSPSolver_init (uniform_matrix k) = Inr (uniform_solver k)"
  by (simp add: TSPSolver_init_def validate_input_def uniform_matrix_def uniform_solver_def
      list_all_iff)

text \<open>
  C8. Construction runs \<open>validate_input\<close> (once: no other function of the model calls it).
  The checks are made in this order: the matrix is square, it has at least two cities, its
  diagonal is zero; the first that fails raises \<^verbatim>\<open>ValueError\<close> with the message naming
  the violation, and a solver object exists only when all three hold.
\<close>

theorem init_validation:
  "TSPSolver_init m =
     (if shape0 m \<noteq> shape1 m then Inl (ValueError ''Distance matrix must be square'')
      else if shape0 m < 2 then Inl (ValueError ''Need at least 2 cities'')
      else if \<exists>i<shape0 m. entries m i i \<noteq> 0
        then Inl (ValueError ''Diagonal elements must be zero'')
      else Inr \<lparr>distance_matrix = m, self_n = shape0 m\<rparr>)"
  by (auto simp: TSPSolver_init_def validate_input_def list_all_iff)

text \<open>
  The cases of \<^verbatim>\<open>test_invalid_matrix\<close>: a 3x2 matrix, the 4-city matrix with its first
  diagonal entry set to 5, and a 1x1 matrix.
\<close>

theorem init_validation_witness:
  "TSPSolver_init (np_array_int [[1, 2], [3, 4], [5, 6]]) =
     Inl (ValueError ''Distance matrix must be square'') \<and>
   TSPSolver_init (M4\<lparr>entries := (\<lambda>i j. if i = 0 \<and> j = 0 then 5 else entries M4 i j)\<rparr>) =
     Inl (ValueError ''Diagonal elements must be zero'') \<and>
   TSPSolver_init (np_array_int [[0]]) = Inl (ValueError ''Need at least 2 cities'') \<and>
   TSPSolver_init M4 = Inr \<lparr>distance_matrix = M4, self_n = 4\<rparr>"
proof -
  have "\<exists>i<4. (if i = 0 then 5 else entries M4 i i) \<noteq> (0::real)"
    by (rule exI [of _ 0]) simp
  moreover have "entries M4 i i = 0" if "i < 4" for i
  proof -
    from that consider "i = 0" | "i = 1" | "i = 2" | "i = 3" by linarith
    then show ?thesis by cases (simp_all add: M4_def np_array_def np_array_int_def)
  qed
  then have "\<not> (\<exists>i<4. entries M4 i i \<noteq> 0)" by blast
  moreover have "shape0 M4 = 4" "shape1 M4 = 4"
    by (simp_all add: M4_def np_array_def np_array_int_def)
  ultimately show ?thesis
    using init_validation [of "np_array_int [[1, 2], [3, 4], [5, 6]]"]
      init_validation [of "M4\<lparr>entries := (\<lambda>i j. if i = 0 \<and> j = 0 then 5 else entries M4 i j)\<rparr>"]
      init_validation [of "np_array_int [[0]]"] init_validation [of M4]
    by (simp add: np_array_def np_array_int_def)
qed

section \<open>The size guard of Held-Karp\<close>

lemma hk_walk_errors_aux:
  "hk_walk dp bm cur path = Some y \<Longrightarrow>
     (\<forall>e. y = Inl e \<longrightarrow> e = KeyError \<or> e = ValueError ''negative shift count'')"
proof (induction rule: hk_walk.raw_induct[rotated 1, consumes 1])
  case (1 hk dp bm cur path y)
  from 1(2) 1(1) show ?case
    by (fastforce split: if_splits option.splits simp: Let_def)
qed

lemma hk_walk_errors:
  "hk_walk dp bm cur path = Some (Inl e) \<Longrightarrow>
     e = KeyError \<or> e = ValueError ''negative shift count''"
  using hk_walk_errors_aux by blast

text \<open>
  C4. With more than 20 cities \<open>held_karp\<close> raises \<^verbatim>\<open>ValueError\<close> with the message that
  names the limit of 20, whatever the matrix holds (the test comes before the table is
  built), and returns no result; with at most 20 cities it never raises that error.
\<close>

theorem held_karp_capacity:
  "(self_n s > 20 \<longrightarrow>
      held_karp s =
        Some (Inl (ValueError ''Held-Karp: Too many cities (max 20 for practical computation)''))) \<and>
   (self_n s \<le> 20 \<longrightarrow>
      held_karp s \<noteq>
        Some (Inl (ValueError ''Held-Karp: Too many cities (max 20 for practical computation)'')))"
proof (intro conjI impI)
  assume "self_n s > 20"
  then show "held_karp s =
      Some (Inl (ValueError ''Held-Karp: Too many cities (max 20 for practical computation)''))"
    by (simp add: held_karp_def)
next
  let ?msg = "''Held-Karp: Too many cities (max 20 for practical computation)''"
  assume le: "self_n s \<le> 20"
  show "held_karp s \<noteq> Some (Inl (ValueError ?msg))"
  proof
    assume h: "held_karp s = Some (Inl (ValueError ?msg))"
    from h le obtain dp bm l where "reconstruct_path_hk dp bm l = Some (Inl (ValueError ?msg))"
      by (auto simp: held_karp_def Let_def split: option.splits sum.splits ecost.splits)
    then have "hk_walk dp bm l [l] = Some (Inl (ValueError ?msg))"
      by (auto simp: reconstruct_path_hk_def split: option.splits sum.splits)
    from hk_walk_errors [OF this] show False by simp
  qed
qed

text \<open>A validated 25-city instance is refused; the 4-city instance is not.\<close>

theorem held_karp_capacity_witness:
  "TSPSolver_init (uniform_matrix 25) = Inr (uniform_solver 25) \<and>
   self_n (uniform_solver 25) > 20 \<and>
   held_karp (uniform_solver 25) =
     Some (Inl (ValueError ''Held-Karp: Too many cities (max 20 for practical computation)'')) \<and>
   self_n S4 \<le> 20 \<and>
   held_karp S4 \<noteq>
     Some (Inl (ValueError ''Held-Karp: Too many cities (max 20 for practical computation)''))"
  using held_karp_capacity [of "uniform_solver 25"] held_karp_capacity [of S4]
  by (simp add: S4_def init_uniform) (simp add: uniform_solver_def)

section \<open>Dispatch\<close>

text \<open>
  C5. \<open>solve\<close> in mode \<^verbatim>\<open>auto\<close> runs Held-Karp up to 15 cities, Christofides up to 100,
  and above that nearest neighbour (from city 0) followed by 2-opt on its tour; a solver's
  name runs that solver, 2-opt from the identity order; any other name raises
  \<^verbatim>\<open>ValueError\<close> with the message \<^verbatim>\<open>Unknown algorithm: <name>\<close>.
\<close>

theorem solve_dispatch:
  "solve impl s alg =
     (if alg = ''auto'' then
        (if self_n s \<le> 15 then held_karp s
         else if self_n s \<le> 100 then Some (christofides impl s)
         else (case nearest_neighbor impl s 0 of
                 Inl e \<Rightarrow> Some (Inl e)
               | Inr nn_result \<Rightarrow> Some (two_opt s (Some (tour nn_result)) 1000)))
      else if alg = ''held-karp'' then held_karp s
      else if alg = ''christofides'' then Some (christofides impl s)
      else if alg = ''nearest-neighbor'' then Some (nearest_neighbor impl s 0)
      else if alg = ''2-opt'' then Some (two_opt s (Some (map int [0..<self_n s])) 1000)
      else Some (Inl (ValueError (''Unknown algorithm: '' @ alg))))"
  by (simp add: solve_def algorithms_def two_opt_def)

declare two_opt_while.simps [simp del]

declare nn_loop.simps [simp del]

declare prim_loop.simps [simp del]

declare matching_loop.simps [simp del]

declare euler_loop.simps [simp del]

section \<open>Tour cost\<close>

lemma np_index_ok: "(\<exists>k. np_index len i = Inr k) = idx_ok len i"
  by (auto simp: np_index_def idx_ok_def)

lemma np_index_cases: "np_index len i = Inl IndexError \<or> (\<exists>k. np_index len i = Inr k)"
  by (auto simp: np_index_def)

lemma matrix_at_ok:
  "(\<exists>c. matrix_at m a b = Inr c) = (idx_ok (shape0 m) a \<and> idx_ok (shape1 m) b)"
  using np_index_ok [of "shape0 m" a] np_index_ok [of "shape1 m" b]
  by (auto simp: matrix_at_def split: sum.splits)

lemma matrix_at_error: "matrix_at m a b = Inl e \<Longrightarrow> e = IndexError"
  using np_index_cases [of "shape0 m" a] np_index_cases [of "shape1 m" b]
  by (auto simp: matrix_at_def split: sum.splits)

lemma cost_loop_error: "cost_loop m tr ks acc = Inl e \<Longrightarrow> e = IndexError"
  by (induction ks arbitrary: acc) (auto split: sum.splits dest: matrix_at_error)

lemma cost_loop_ok:
  "(\<exists>c. cost_loop m tr ks acc = Inr c) =
     (\<forall>i\<in>set ks. idx_ok (shape0 m) (tr ! i) \<and> idx_ok (shape1 m) (tr ! ((i + 1) mod length tr)))"
proof (induction ks arbitrary: acc)
  case Nil
  show ?case by simp
next
  case (Cons k ks)
  show ?case
  proof (cases "matrix_at m (tr ! k) (tr ! ((k + 1) mod length tr))")
    case (Inl e)
    with matrix_at_ok [of m "tr ! k" "tr ! ((k + 1) mod length tr)"] show ?thesis by auto
  next
    case (Inr d)
    with matrix_at_ok [of m "tr ! k" "tr ! ((k + 1) mod length tr)"] Cons [of "np_add (dtype m) acc d"]
    show ?thesis by auto
  qed
qed

lemma calculate_tour_cost_error: "calculate_tour_cost s tr = Inl e \<Longrightarrow> e = IndexError"
  unfolding calculate_tour_cost_def by (rule cost_loop_error)

lemma calculate_tour_cost_ok: "(\<exists>c. calculate_tour_cost s tr = Inr c) = tour_ok s tr"
proof -
  let ?m = "distance_matrix s"
  let ?n = "length tr"
  have "(\<forall>i\<in>set [0..<?n]. idx_ok (shape0 ?m) (tr ! i) \<and> idx_ok (shape1 ?m) (tr ! ((i + 1) mod ?n)))
      = (\<forall>x\<in>set tr. idx_ok (shape0 ?m) x \<and> idx_ok (shape1 ?m) x)" (is "?L = ?R")
  proof
    assume L: ?L
    show ?R
    proof
      fix x assume "x \<in> set tr"
      then obtain k where k: "k < ?n" "tr ! k = x" by (auto simp: in_set_conv_nth)
      define i where "i = (k + (?n - 1)) mod ?n"
      have pos: "0 < ?n" using k(1) by (cases tr) auto
      have i: "i < ?n" unfolding i_def using pos by (rule mod_less_divisor)
      have "(i + 1) mod ?n = (k + (?n - 1) + 1) mod ?n"
        unfolding i_def by (simp add: mod_Suc_eq)
      also have "k + (?n - 1) + 1 = k + ?n" using pos by simp
      also have "(k + ?n) mod ?n = k" using k by simp
      finally have "(i + 1) mod ?n = k" .
      with L i k show "idx_ok (shape0 ?m) x \<and> idx_ok (shape1 ?m) x" by auto
    qed
  next
    assume R: ?R
    show ?L
    proof
      fix i assume "i \<in> set [0..<?n]"
      then have "i < ?n" by simp
      then have "0 < ?n" by (cases tr) auto
      then have "(i + 1) mod ?n < ?n" by (rule mod_less_divisor)
      note \<open>i < ?n\<close> this
      then have "tr ! i \<in> set tr" "tr ! ((i + 1) mod ?n) \<in> set tr" by auto
      with R show "idx_ok (shape0 ?m) (tr ! i) \<and> idx_ok (shape1 ?m) (tr ! ((i + 1) mod ?n))"
        by blast
    qed
  qed
  then show ?thesis
    unfolding calculate_tour_cost_def tour_ok_def list_all_iff
    using cost_loop_ok [of ?m tr "[0..<?n]" 0] by simp
qed

lemma tour_ok_mset: "mset tr' = mset tr \<Longrightarrow> tour_ok s tr' = tour_ok s tr"
  unfolding tour_ok_def list_all_iff by (auto dest: mset_eq_setD)

lemma mset_reverse_segment: "i \<le> j \<Longrightarrow> mset (reverse_segment tr i j) = mset tr"
proof -
  assume ij: "i \<le> j"
  have "mset (take i tr) + mset (drop i (take (j + 1) tr)) = mset (take (j + 1) tr)"
  proof -
    have "take i tr = take i (take (j + 1) tr)" using ij by (simp add: min_def)
    then have "mset (take i tr) + mset (drop i (take (j + 1) tr))
        = mset (take i (take (j + 1) tr) @ drop i (take (j + 1) tr))"
      by (simp only: mset_append)
    then show ?thesis by (simp only: append_take_drop_id)
  qed
  moreover have "mset (take (j + 1) tr) + mset (drop (j + 1) tr) = mset tr"
    by (metis append_take_drop_id mset_append)
  ultimately show ?thesis
    unfolding reverse_segment_def by (simp add: add.assoc [symmetric])
qed

section \<open>2-opt\<close>

lemma two_opt_inner_mset:
  "two_opt_inner s tr best i js = Inr r \<Longrightarrow> \<forall>j\<in>set js. i \<le> j \<Longrightarrow> mset (fst r) = mset tr"
proof (induction js)
  case Nil
  then show ?case by auto
next
  case (Cons j js)
  then have ij: "i \<le> j" by simp
  show ?case
  proof (cases "calculate_tour_cost s (reverse_segment tr i j)")
    case (Inl e)
    with Cons.prems show ?thesis by simp
  next
    case (Inr c)
    show ?thesis
    proof (cases "c < best")
      case True
      with Inr Cons.prems have "fst r = reverse_segment tr i j" by auto
      with mset_reverse_segment [OF ij] show ?thesis by simp
    next
      case False
      with Inr Cons.prems have "two_opt_inner s tr best i js = Inr r" by simp
      with Cons show ?thesis by simp
    qed
  qed
qed

lemma two_opt_outer_mset:
  "two_opt_outer s tr best ks = Inr r \<Longrightarrow> mset (fst r) = mset tr"
proof (induction ks)
  case Nil
  then show ?case by auto
next
  case (Cons i ks)
  show ?case
  proof (cases "two_opt_inner s tr best i [i + 1..<self_n s]")
    case (Inl e)
    with Cons.prems show ?thesis by simp
  next
    case (Inr r1)
    have m: "mset (fst r1) = mset tr"
      by (rule two_opt_inner_mset [OF Inr]) simp
    show ?thesis
    proof (cases "snd (snd r1)")
      case True
      with Inr Cons.prems m show ?thesis by auto
    next
      case False
      with Inr Cons.prems have "two_opt_outer s tr best ks = Inr r" by simp
      with Cons.IH show ?thesis by simp
    qed
  qed
qed

lemma two_opt_while_mset:
  "two_opt_while s k tr best imp it = Inr r \<Longrightarrow> mset (fst r) = mset tr"
proof (induction s k tr best imp it rule: two_opt_while.induct)
  case (1 s k tr best imp it)
  show ?case
  proof (cases "imp \<and> it < k")
    case True
    with "1.prems" obtain r1 where r1: "two_opt_outer s tr best [1..<self_n s - 1] = Inr r1"
      and rec: "two_opt_while s k (fst r1) (fst (snd r1)) (snd (snd r1)) (it + 1) = Inr r"
      by (subst (asm) two_opt_while.simps) (auto split: sum.splits)
    from "1.IH" [OF True r1 rec] two_opt_outer_mset [OF r1] show ?thesis by simp
  next
    case False
    with "1.prems" show ?thesis
      by (subst (asm) two_opt_while.simps) auto
  qed
qed

lemma find_append_case:
  "find P (xs @ ys) = (case find P xs of None \<Rightarrow> find P ys | Some x \<Rightarrow> Some x)"
  by (induction xs) auto

lemma scan_step_append:
  "scan_step s (ps @ qs) tr =
     (case scan_step s ps tr of None \<Rightarrow> scan_step s qs tr | Some t \<Rightarrow> Some t)"
  by (simp add: scan_step_def find_append_case split: option.splits)

lemma reverse_segment_cost:
  assumes "calculate_tour_cost s tr = Inr best" "i \<le> j"
  shows "\<exists>c. calculate_tour_cost s (reverse_segment tr i j) = Inr c"
proof -
  from assms(1) have "tour_ok s tr" using calculate_tour_cost_ok by blast
  then have "tour_ok s (reverse_segment tr i j)"
    using tour_ok_mset [OF mset_reverse_segment [OF assms(2)]] by blast
  then show ?thesis using calculate_tour_cost_ok by blast
qed

lemma two_opt_inner_scan:
  assumes "calculate_tour_cost s tr = Inr best" "\<forall>j\<in>set js. i \<le> j"
  shows "\<exists>c. two_opt_inner s tr best i js =
            Inr (case scan_step s (map (Pair i) js) tr of None \<Rightarrow> tr | Some t \<Rightarrow> t, c,
                 scan_step s (map (Pair i) js) tr \<noteq> None) \<and>
          calculate_tour_cost s (case scan_step s (map (Pair i) js) tr of None \<Rightarrow> tr | Some t \<Rightarrow> t)
            = Inr c \<and> c \<le> best"
  using assms(2)
proof (induction js)
  case Nil
  with assms(1) show ?case by (simp add: scan_step_def)
next
  case (Cons j js)
  then have ij: "i \<le> j" by simp
  from reverse_segment_cost [OF assms(1) ij]
  obtain c where c: "calculate_tour_cost s (reverse_segment tr i j) = Inr c" by blast
  show ?case
  proof (cases "c < best")
    case True
    with c assms(1) show ?thesis
      by (simp add: scan_step_def improving_def)
  next
    case False
    with c assms(1) have "scan_step s (map (Pair i) (j # js)) tr = scan_step s (map (Pair i) js) tr"
      by (simp add: scan_step_def improving_def)
    moreover from False c have "two_opt_inner s tr best i (j # js) = two_opt_inner s tr best i js"
      by simp
    ultimately show ?thesis using Cons by simp
  qed
qed

lemma two_opt_outer_scan:
  assumes "calculate_tour_cost s tr = Inr best"
  shows "\<exists>c. two_opt_outer s tr best ks =
            Inr (case scan_step s (concat (map (\<lambda>i. map (Pair i) [i + 1..<self_n s]) ks)) tr of
                   None \<Rightarrow> tr | Some t \<Rightarrow> t, c,
                 scan_step s (concat (map (\<lambda>i. map (Pair i) [i + 1..<self_n s]) ks)) tr \<noteq> None) \<and>
          calculate_tour_cost s
            (case scan_step s (concat (map (\<lambda>i. map (Pair i) [i + 1..<self_n s]) ks)) tr of
               None \<Rightarrow> tr | Some t \<Rightarrow> t) = Inr c \<and> c \<le> best"
proof (induction ks)
  case Nil
  with assms show ?case by (simp add: scan_step_def)
next
  case (Cons i ks)
  have "\<forall>j\<in>set [i + 1..<self_n s]. i \<le> j" by simp
  from two_opt_inner_scan [OF assms this]
  obtain c where c: "two_opt_inner s tr best i [i + 1..<self_n s] =
      Inr (case scan_step s (map (Pair i) [i + 1..<self_n s]) tr of None \<Rightarrow> tr | Some t \<Rightarrow> t, c,
           scan_step s (map (Pair i) [i + 1..<self_n s]) tr \<noteq> None)"
    and c2: "calculate_tour_cost s
        (case scan_step s (map (Pair i) [i + 1..<self_n s]) tr of None \<Rightarrow> tr | Some t \<Rightarrow> t) = Inr c"
    and c3: "c \<le> best"
    by blast
  show ?case
  proof (cases "scan_step s (map (Pair i) [i + 1..<self_n s]) tr")
    case None
    with c Cons show ?thesis by (simp add: scan_step_append)
  next
    case (Some t)
    with c c2 c3 show ?thesis by (simp add: scan_step_append)
  qed
qed

lemma two_opt_while_search:
  assumes "calculate_tour_cost s tr = Inr best"
  shows "\<exists>c. two_opt_while s k tr best imp it =
            Inr (if imp then first_improvement_search s (scan_pairs (self_n s)) (nat (k - it)) tr
                 else tr, c) \<and>
          calculate_tour_cost s
            (if imp then first_improvement_search s (scan_pairs (self_n s)) (nat (k - it)) tr else tr)
            = Inr c \<and> c \<le> best"
  using assms
proof (induction s k tr best imp it rule: two_opt_while.induct)
  case (1 s k tr best imp it)
  let ?pairs = "scan_pairs (self_n s)"
  show ?case
  proof (cases "imp \<and> it < k")
    case False
    then have "\<not> imp \<or> nat (k - it) = 0" by auto
    with False "1.prems" show ?thesis
      by (subst two_opt_while.simps) auto
  next
    case True
    then have k: "nat (k - it) = Suc (nat (k - (it + 1)))" by linarith
    define t1 where "t1 = (case scan_step s ?pairs tr of None \<Rightarrow> tr | Some t \<Rightarrow> t)"
    define b1 where "b1 = (scan_step s ?pairs tr \<noteq> None)"
    from two_opt_outer_scan [OF "1.prems", of "[1..<self_n s - 1]"]
    obtain c where o: "two_opt_outer s tr best [1..<self_n s - 1] = Inr (t1, c, b1)"
      and oc: "calculate_tour_cost s t1 = Inr c"
      and ob: "c \<le> best"
      unfolding scan_pairs_def t1_def b1_def by blast
    from "1.IH" [OF True o] oc
    obtain c' where w: "two_opt_while s k t1 c b1 (it + 1) =
        Inr (if b1 then first_improvement_search s ?pairs (nat (k - (it + 1))) t1 else t1, c')"
      and wc: "calculate_tour_cost s
          (if b1 then first_improvement_search s ?pairs (nat (k - (it + 1))) t1 else t1) = Inr c'"
      and wb: "c' \<le> c"
      by (cases b1) auto
    have eq: "first_improvement_search s ?pairs (nat (k - it)) tr =
        (if b1 then first_improvement_search s ?pairs (nat (k - (it + 1))) t1 else t1)"
      unfolding k t1_def b1_def by (simp split: option.splits)
    have "two_opt_while s k tr best imp it = two_opt_while s k t1 c b1 (it + 1)"
      using True o by (subst two_opt_while.simps) simp
    with w wc wb ob eq True show ?thesis by auto
  qed
qed

lemma scan_step_cost:
  assumes "scan_step s ps tr = Some t" "calculate_tour_cost s tr = Inr c0"
  shows "\<exists>c. calculate_tour_cost s t = Inr c \<and> c < c0"
proof -
  from assms(1) obtain p where p: "find (improving s tr) ps = Some p"
    and t: "t = reverse_segment tr (fst p) (snd p)"
    by (auto simp: scan_step_def split: option.splits)
  from p have "improving s tr p" by (auto simp: find_Some_iff)
  with t assms(2) show ?thesis by (auto simp: improving_def split: sum.splits)
qed

lemma search_step_mono:
  assumes "calculate_tour_cost s tr = Inr c0"
  shows "\<exists>c c'. calculate_tour_cost s (first_improvement_search s ps k tr) = Inr c \<and>
           calculate_tour_cost s (first_improvement_search s ps (Suc k) tr) = Inr c' \<and>
           c' \<le> c \<and> c \<le> c0"
  using assms
proof (induction k arbitrary: tr c0)
  case 0
  show ?case
  proof (cases "scan_step s ps tr")
    case None
    with 0 show ?thesis by simp
  next
    case (Some t)
    with scan_step_cost [OF Some 0] 0 show ?thesis by auto
  qed
next
  case (Suc k)
  show ?case
  proof (cases "scan_step s ps tr")
    case None
    with Suc.prems show ?thesis by simp
  next
    case (Some t)
    from scan_step_cost [OF Some Suc.prems]
    obtain ct where ct: "calculate_tour_cost s t = Inr ct" "ct < c0" by blast
    from Suc.IH [OF ct(1)] ct(2) Some show ?thesis by auto
  qed
qed

lemma search_mono:
  assumes "calculate_tour_cost s tr = Inr c0" "k \<le> k'"
  shows "\<exists>c c'. calculate_tour_cost s (first_improvement_search s ps k tr) = Inr c \<and>
           calculate_tour_cost s (first_improvement_search s ps k' tr) = Inr c' \<and>
           c' \<le> c \<and> c \<le> c0"
  using assms(2)
proof (induction k' rule: dec_induct)
  case base
  from search_step_mono [OF assms(1), of ps k] show ?case by auto
next
  case (step m)
  from search_step_mono [OF assms(1), of ps m] step.IH show ?case by auto
qed

lemma two_opt_search:
  assumes "calculate_tour_cost s tr = Inr c0"
    and "tr = (case initial of None \<Rightarrow> map int [0..<self_n s] | Some t \<Rightarrow> t)"
  shows "\<exists>r. two_opt s initial k = Inr r \<and>
           tour r = first_improvement_search s (scan_pairs (self_n s)) (nat k) tr \<and>
           calculate_tour_cost s (tour r) = Inr (cost r) \<and> cost r \<le> c0"
proof -
  from two_opt_while_search [OF assms(1), of k True 0]
  obtain c where "two_opt_while s k tr c0 True 0 =
      Inr (first_improvement_search s (scan_pairs (self_n s)) (nat k) tr, c)"
    and "calculate_tour_cost s (first_improvement_search s (scan_pairs (self_n s)) (nat k) tr) = Inr c"
    and "c \<le> c0"
    by auto
  with assms show ?thesis by (simp add: two_opt_def)
qed

text \<open>
  C3. Whenever the cost of the initial tour (the identity order when none is given) can
  be computed, \<open>two_opt\<close> returns a result for every budget, the cost of the result is at
  most the cost of the initial tour, and a larger budget never gives a larger cost.
\<close>

theorem two_opt_never_worsens:
  assumes "calculate_tour_cost s (case initial of None \<Rightarrow> map int [0..<self_n s] | Some t \<Rightarrow> t) = Inr c0"
    and "k \<le> k'"
  shows "\<exists>r r'. two_opt s initial k = Inr r \<and> two_opt s initial k' = Inr r' \<and>
           cost r \<le> c0 \<and> cost r' \<le> cost r"
proof -
  define tr where "tr = (case initial of None \<Rightarrow> map int [0..<self_n s] | Some t \<Rightarrow> t)"
  let ?ps = "scan_pairs (self_n s)"
  from assms(1) have c0: "calculate_tour_cost s tr = Inr c0" by (simp add: tr_def)
  from two_opt_search [OF c0 tr_def, of k]
  obtain r where r: "two_opt s initial k = Inr r" "tour r = first_improvement_search s ?ps (nat k) tr"
    "calculate_tour_cost s (tour r) = Inr (cost r)" "cost r \<le> c0"
    by blast
  from two_opt_search [OF c0 tr_def, of k']
  obtain r' where r': "two_opt s initial k' = Inr r'"
    "tour r' = first_improvement_search s ?ps (nat k') tr"
    "calculate_tour_cost s (tour r') = Inr (cost r')"
    by blast
  from assms(2) have "nat k \<le> nat k'" by simp
  from search_mono [OF c0 this, of ?ps] r(2,3) r'(2,3) have "cost r' \<le> cost r" by auto
  with r r' show ?thesis by blast
qed

lemma cost_identity_S5: "calculate_tour_cost S5 (map int [0..<self_n S5]) = Inr 115"
  unfolding S5_def M5_def by code_simp

theorem two_opt_never_worsens_witness:
  "calculate_tour_cost S5 (map int [0..<self_n S5]) = Inr 115 \<and> (0::int) \<le> 1000 \<and>
   (\<exists>r r'. two_opt S5 None 0 = Inr r \<and> two_opt S5 None 1000 = Inr r' \<and>
            cost r \<le> 115 \<and> cost r' \<le> cost r)"
  using two_opt_never_worsens [of S5 None 115 0 1000] cost_identity_S5 by simp

text \<open>
  C6, as amended. \<open>two_opt\<close> is the first-improvement search over the pairs \<open>(i, j)\<close> with
  \<open>1 \<le> i < j \<le> n - 1\<close>, scanned in lexicographic order: position 0 never starts a
  reversed segment.
\<close>

theorem two_opt_first_improvement:
  assumes "calculate_tour_cost s tr = Inr c0"
  shows "\<exists>r. two_opt s (Some tr) k = Inr r \<and>
           tour r = first_improvement_search s (scan_pairs (self_n s)) (nat k) tr \<and>
           calculate_tour_cost s (tour r) = Inr (cost r)"
  using two_opt_search [OF assms, of "Some tr" k] by auto

theorem two_opt_first_improvement_witness:
  "calculate_tour_cost S5 [0, 1, 2, 3, 4] = Inr 115 \<and>
   (\<exists>r. two_opt S5 (Some [0, 1, 2, 3, 4]) 1000 = Inr r \<and>
        tour r = first_improvement_search S5 (scan_pairs (self_n S5)) (nat 1000) [0, 1, 2, 3, 4] \<and>
        calculate_tour_cost S5 (tour r) = Inr (cost r))"
proof -
  have c: "calculate_tour_cost S5 [0, 1, 2, 3, 4] = Inr 115"
    unfolding S5_def M5_def by code_simp
  from two_opt_first_improvement [OF c, of 1000] c show ?thesis by simp
qed

text \<open>
  C6 as stated fails on the asymmetric matrix: from the identity tour of cost 31 the scan
  of the code finds no improvement and returns it, although reversing positions 0 to 1
  gives a tour of cost 4, which a search over all pairs \<open>i < j\<close> takes.
\<close>

theorem two_opt_all_pairs_counterexample:
  "TSPSolver_init M_asym = Inr S_asym \<and>
   two_opt S_asym (Some [0, 1, 2, 3]) 1000 =
     Inr \<lparr>tour = [0, 1, 2, 3], cost = 31, algorithm = ''2-opt'', num_cities = 4,
          is_optimal = False, approximation_ratio = None\<rparr> \<and>
   (0, 1) \<in> set (all_pairs 4) \<and>
   calculate_tour_cost S_asym (reverse_segment [0, 1, 2, 3] 0 1) = Inr 4 \<and>
   first_improvement_search S_asym (all_pairs 4) 1000 [0, 1, 2, 3] = [1, 0, 2, 3]"
  unfolding S_asym_def M_asym_def
  apply (intro conjI)
      apply (simp add: TSPSolver_init_def validate_input_def np_array_def np_array_int_def upt_rec)
     apply code_simp
    apply code_simp
   apply code_simp
  apply code_simp
  done


lemma edge_sum_simps [simp]:
  "edge_sum s [] = 0"
  "edge_sum s (e # es) = dmat s (fst e) (snd e) + edge_sum s es"
  "edge_sum s (es @ fs) = edge_sum s es + edge_sum s fs"
  by (simp_all add: edge_sum_def)

lemma path_cost_simps [simp]:
  "path_cost s [] = 0"
  "path_cost s [x] = 0"
  "path_cost s (x # y # xs) = dmat s x y + path_cost s (y # xs)"
  by (simp_all add: path_cost_def)



lemma zip_rotate_aux: "zip (x # xs) (xs @ [y]) = zip (x # xs) xs @ [(last (x # xs), y)]"
  by (induction xs arbitrary: x) auto





section \<open>Sums that do not overflow\<close>




lemma np_sum_snoc:
  "np_sum s (es @ [e]) = np_add (dtype (distance_matrix s)) (np_sum s es) (dmat s (fst e) (snd e))"
  by (simp add: np_sum_def)



lemma np_path_cost_single [simp]: "np_path_cost s [x] = 0"
  by (simp add: np_path_cost_def np_sum_def)

lemma np_cyclic_cost_path:
  assumes "q \<noteq> []"
  shows "np_cyclic_cost s q =
     np_add (dtype (distance_matrix s)) (np_path_cost s q) (dmat s (last q) (hd q))"
proof -
  from assms obtain x ys where q: "q = x # ys" by (cases q) auto
  show ?thesis
    unfolding q np_cyclic_cost_def np_path_cost_def
    using zip_rotate_aux [of x ys x] by (simp add: np_sum_snoc)
qed







lemma no_overflow_uniform: "no_overflow (uniform_solver k)"
  by (simp add: no_overflow_def uniform_solver_def uniform_matrix_def)



lemma is_tour_distinct: "is_tour n tr \<Longrightarrow> distinct tr"
proof -
  assume t: "is_tour n tr"
  then have "card (set tr) = card (int ` {0..<n})" by (simp add: is_tour_def)
  also have "\<dots> = n" by (simp add: card_image)
  finally show ?thesis using t by (simp add: is_tour_def card_distinct)
qed

lemma is_tour_mset: "is_tour n tr = (mset tr = mset (map int [0..<n]))"
proof
  assume t: "is_tour n tr"
  have d: "distinct (map int [0..<n])" by (simp add: distinct_map)
  from t have "set tr = set (map int [0..<n])" unfolding is_tour_def by blast
  with set_eq_iff_mset_eq_distinct [OF is_tour_distinct [OF t] d]
  show "mset tr = mset (map int [0..<n])" by blast
next
  assume m: "mset tr = mset (map int [0..<n])"
  from mset_eq_length [OF m] mset_eq_setD [OF m] show "is_tour n tr"
    by (simp add: is_tour_def)
qed

section \<open>Nearest neighbour\<close>

lemma py_min_key_in:
  "xs \<noteq> [] \<Longrightarrow> \<exists>y. py_min_key f xs = Inr y \<and> y \<in> set xs"
proof (cases xs)
  case Nil
  then show "xs \<noteq> [] \<Longrightarrow> ?thesis" by simp
next
  case (Cons x ys)
  have "foldl (\<lambda>b y. if f y < f b then y else b) a zs \<in> set (a # zs)" for a zs
    by (induction zs arbitrary: a) auto
  from this [of x ys] Cons show ?thesis by simp
qed

lemma set_impl_iter: "set_impl_ok impl \<Longrightarrow> set (iter_order impl xs) = set xs"
  by (simp add: set_impl_ok_def)


lemma list_impl_ok: "set_impl_ok list_impl"
  by (simp add: set_impl_ok_def list_impl_def)

lemma nn_loop_props:
  assumes "set_impl_ok impl"
  shows "\<exists>p. nn_loop impl s unvisited tr current tot =
           Inr (tr @ p, last (current # p),
                foldl (np_add (dtype (distance_matrix s))) tot
                  (map (\<lambda>e. dmat s (fst e) (snd e)) (zip (current # p) p))) \<and>
           mset p = mset unvisited"
  using assms
proof (induction impl s unvisited tr current tot rule: nn_loop.induct)
  case (1 impl s unvisited tr current tot)
  let ?dt = "dtype (distance_matrix s)"
  show ?case
  proof (cases "unvisited = []")
    case True
    then show ?thesis by (subst nn_loop.simps) simp
  next
    case False
    then have "iter_order impl unvisited \<noteq> []"
      using set_impl_iter [OF "1.prems", of unvisited] by auto
    from py_min_key_in [OF this, of "\<lambda>x. dmat s current x"]
    obtain nearest where n: "py_min_key (\<lambda>x. dmat s current x) (iter_order impl unvisited) = Inr nearest"
      and nin: "nearest \<in> set unvisited"
      using set_impl_iter [OF "1.prems", of unvisited] by auto
    from "1.IH" [OF False n nin "1.prems"]
    obtain p where p: "nn_loop impl s (remove1 nearest unvisited) (tr @ [nearest]) nearest
          (np_add ?dt tot (dmat s current nearest)) =
        Inr ((tr @ [nearest]) @ p, last (nearest # p),
             foldl (np_add ?dt) (np_add ?dt tot (dmat s current nearest))
               (map (\<lambda>e. dmat s (fst e) (snd e)) (zip (nearest # p) p)))"
      and mp: "mset p = mset (remove1 nearest unvisited)"
      by blast
    have "nn_loop impl s unvisited tr current tot =
        Inr (tr @ nearest # p, last (current # nearest # p),
             foldl (np_add ?dt) tot
               (map (\<lambda>e. dmat s (fst e) (snd e)) (zip (current # nearest # p) (nearest # p))))"
      using False n nin p by (subst nn_loop.simps) simp
    moreover have "mset (nearest # p) = mset unvisited"
      using mp nin by simp
    ultimately show ?thesis by blast
  qed
qed

lemma nearest_neighbor_props:
  assumes "set_impl_ok impl" "0 \<le> start" "start < int (self_n s)"
  shows "\<exists>p. nearest_neighbor impl s start =
           Inr \<lparr>tour = start # p, cost = np_cyclic_cost s (start # p),
                algorithm = ''Nearest Neighbor'', num_cities = self_n s, is_optimal = False,
                approximation_ratio = None\<rparr> \<and>
           is_tour (self_n s) (start # p)"
proof -
  let ?ids = "map int [0..<self_n s]"
  let ?dt = "dtype (distance_matrix s)"
  from assms(2,3) have "nat start < self_n s" "int (nat start) = start" by auto
  then have sin: "start \<in> set ?ids" by (metis atLeast0LessThan image_eqI lessThan_iff set_map set_upt)
  from nn_loop_props [OF assms(1), of s "remove1 start ?ids" "[start]" start 0]
  obtain p where p: "nn_loop impl s (remove1 start ?ids) [start] start 0 =
      Inr ([start] @ p, last (start # p),
           foldl (np_add ?dt) 0 (map (\<lambda>e. dmat s (fst e) (snd e)) (zip (start # p) p)))"
    and mp: "mset p = mset (remove1 start ?ids)"
    by blast
  have "mset (start # p) = mset ?ids" using mp sin by simp
  then have "is_tour (self_n s) (start # p)" by (simp add: is_tour_mset)
  moreover have "np_cyclic_cost s (start # p) =
      np_add ?dt (foldl (np_add ?dt) 0 (map (\<lambda>e. dmat s (fst e) (snd e)) (zip (start # p) p)))
        (dmat s (last (start # p)) start)"
    using np_cyclic_cost_path [of "start # p" s] by (simp add: np_path_cost_def np_sum_def)
  then have "nearest_neighbor impl s start =
      Inr \<lparr>tour = start # p, cost = np_cyclic_cost s (start # p),
                algorithm = ''Nearest Neighbor'', num_cities = self_n s, is_optimal = False,
                approximation_ratio = None\<rparr>"
    using sin p by (simp add: nearest_neighbor_def del: set_map set_upt)
  ultimately show ?thesis by blast
qed

text \<open>
  C9. \<open>nearest_neighbor\<close> does not check its starting city. From a start in \<open>[0, n)\<close> it
  returns a tour, that is a list of the \<open>n\<close> cities in which each occurs once, and the tour
  begins with the start; any other start fails at \<^verbatim>\<open>unvisited.remove(start)\<close> with
  \<^verbatim>\<open>KeyError\<close>, which is not a \<^verbatim>\<open>ValueError\<close>.
\<close>

theorem nearest_neighbor_start:
  assumes "TSPSolver_init m = Inr s" "set_impl_ok impl"
  shows "(0 \<le> start \<and> start < int (self_n s) \<longrightarrow>
           (\<exists>r. nearest_neighbor impl s start = Inr r \<and> is_tour (self_n s) (tour r) \<and>
                distinct (tour r) \<and> hd (tour r) = start)) \<and>
         (\<not> (0 \<le> start \<and> start < int (self_n s)) \<longrightarrow>
           nearest_neighbor impl s start = Inl KeyError)"
proof (intro conjI impI)
  assume "0 \<le> start \<and> start < int (self_n s)"
  with nearest_neighbor_props [OF assms(2), of start s]
  obtain p where p: "nearest_neighbor impl s start =
           Inr \<lparr>tour = start # p, cost = np_cyclic_cost s (start # p),
                algorithm = ''Nearest Neighbor'', num_cities = self_n s, is_optimal = False,
                approximation_ratio = None\<rparr>" "is_tour (self_n s) (start # p)"
    by blast
  from is_tour_distinct [OF p(2)] p
  show "\<exists>r. nearest_neighbor impl s start = Inr r \<and> is_tour (self_n s) (tour r) \<and>
      distinct (tour r) \<and> hd (tour r) = start"
    by simp
next
  assume "\<not> (0 \<le> start \<and> start < int (self_n s))"
  then have "start \<notin> set (map int [0..<self_n s])" by auto
  then show "nearest_neighbor impl s start = Inl KeyError"
    by (simp add: nearest_neighbor_def del: set_map set_upt)
qed

theorem nearest_neighbor_start_witness:
  "TSPSolver_init M5 = Inr S5 \<and> set_impl_ok list_impl \<and>
   (\<exists>r. nearest_neighbor list_impl S5 3 = Inr r \<and> is_tour (self_n S5) (tour r) \<and>
        distinct (tour r) \<and> hd (tour r) = 3) \<and>
   nearest_neighbor list_impl S5 5 = Inl KeyError \<and>
   nearest_neighbor list_impl S5 (- 1) = Inl KeyError"
  using nearest_neighbor_start [OF init_S5 list_impl_ok, of 3]
    nearest_neighbor_start [OF init_S5 list_impl_ok, of 5]
    nearest_neighbor_start [OF init_S5 list_impl_ok, of "- 1"]
  by (simp add: init_S5 list_impl_ok S5_def)

section \<open>Held-Karp: subsets as bit masks\<close>








section \<open>Held-Karp: what each loop writes\<close>

















section \<open>Held-Karp: the table holds shortest paths\<close>



















section \<open>Held-Karp: the result\<close>










lemma held_karp_S4:
  "held_karp S4 =
     Some (Inr \<lparr>tour = [0, 2, 3, 1], cost = 80, algorithm = ''Held-Karp (Exact DP)'',
                num_cities = 4, is_optimal = True, approximation_ratio = None\<rparr>)"
  unfolding S4_def M4_def by code_simp



section \<open>Christofides: the spanning tree\<close>










section \<open>Christofides: odd vertices and the matching\<close>







section \<open>Christofides: the multigraph\<close>








section \<open>Christofides: the Eulerian circuit\<close>



section \<open>Christofides: the shortcut and the result\<close>




section \<open>Invariants of the results\<close>

















declare two_opt_while_st.simps [simp del]

lemma new_tour_st_props:
  assumes "tr < length st"
  shows "\<exists>ext. fst (new_tour_st st tr i j) = st @ ext \<and>
           snd (new_tour_st st tr i j) = length st + 5 \<and> length ext = 6 \<and>
           (st @ ext) ! (length st + 5) = reverse_segment (st ! tr) i j"
  using assms
  by (simp add: new_tour_st_def alloc_def nth_append reverse_segment_def)

lemma st_rel_refl: "tr < length st \<Longrightarrow> st_rel st tr st (Inr (st ! tr, x)) (Inr (tr, x))"
  by (simp add: st_rel_def)

lemma st_rel_step:
  assumes "st_rel st1 a st2 pr sr" "a = tr \<or> length st \<le> a" "st1 = st @ ext"
  shows "st_rel st tr st2 pr sr"
  using assms unfolding st_rel_def by (cases pr) auto

lemma two_opt_inner_rel:
  assumes "tr < length st"
  shows "st_rel st tr (fst (two_opt_inner_st s st tr best i js))
           (two_opt_inner s (st ! tr) best i js) (snd (two_opt_inner_st s st tr best i js))"
  using assms
proof (induction js arbitrary: st)
  case Nil
  then show ?case by (simp add: st_rel_refl)
next
  case (Cons j js)
  from new_tour_st_props [OF Cons.prems, of i j] obtain ext where
    e: "fst (new_tour_st st tr i j) = st @ ext" "snd (new_tour_st st tr i j) = length st + 5"
      "length ext = 6" "(st @ ext) ! (length st + 5) = reverse_segment (st ! tr) i j"
    by blast
  define st1 where "st1 = st @ ext"
  have nt: "new_tour_st st tr i j = (st1, length st + 5)"
    using e(1,2) by (simp add: st1_def prod_eq_iff)
  have tr1: "tr < length st1" "st1 ! tr = st ! tr"
    using Cons.prems by (simp_all add: st1_def nth_append)
  have new: "st1 ! (length st + 5) = reverse_segment (st ! tr) i j" "length st + 5 < length st1"
    using e(3,4) by (simp_all add: st1_def)
  have ex1: "\<exists>ext. st1 = st @ ext" unfolding st1_def by blast
  have unf: "two_opt_inner_st s st tr best i (j # js) =
      (case calculate_tour_cost s (reverse_segment (st ! tr) i j) of
         Inl e \<Rightarrow> (st1, Inl e)
       | Inr new_cost \<Rightarrow>
           if new_cost < best then (st1, Inr (length st + 5, new_cost, True))
           else two_opt_inner_st s st1 tr best i js)"
    by (simp add: nt new(1))
  show ?case
  proof (cases "calculate_tour_cost s (reverse_segment (st ! tr) i j)")
    case (Inl err)
    then show ?thesis unfolding unf using ex1 by (simp add: st_rel_def)
  next
    case (Inr new_cost)
    show ?thesis
    proof (cases "new_cost < best")
      case True
      with Inr show ?thesis unfolding unf using ex1 new by (simp add: st_rel_def)
    next
      case False
      from Cons.IH [OF tr1(1)] have
        "st_rel st1 tr (fst (two_opt_inner_st s st1 tr best i js))
           (two_opt_inner s (st ! tr) best i js) (snd (two_opt_inner_st s st1 tr best i js))"
        by (simp add: tr1(2))
      from st_rel_step [OF this _ st1_def] have
        "st_rel st tr (fst (two_opt_inner_st s st1 tr best i js))
           (two_opt_inner s (st ! tr) best i js) (snd (two_opt_inner_st s st1 tr best i js))"
        by simp
      with Inr False show ?thesis unfolding unf by simp
    qed
  qed
qed

lemma two_opt_outer_rel:
  assumes "tr < length st"
  shows "st_rel st tr (fst (two_opt_outer_st s st tr best ks))
           (two_opt_outer s (st ! tr) best ks) (snd (two_opt_outer_st s st tr best ks))"
  using assms
proof (induction ks arbitrary: st)
  case Nil
  then show ?case by (simp add: st_rel_refl)
next
  case (Cons i ks)
  define X where "X = two_opt_inner_st s st tr best i [i + 1..<self_n s]"
  define st1 where "st1 = fst X"
  define pr where "pr = two_opt_inner s (st ! tr) best i [i + 1..<self_n s]"
  have X: "X = (st1, snd X)" by (simp add: st1_def)
  have rel: "st_rel st tr st1 pr (snd X)"
    unfolding st1_def pr_def X_def by (rule two_opt_inner_rel [OF Cons.prems])
  then obtain ext where ext: "st1 = st @ ext" unfolding st_rel_def by blast
  have tr1: "tr < length st1" "st1 ! tr = st ! tr"
    using Cons.prems by (simp_all add: ext nth_append)
  have unf: "two_opt_outer_st s st tr best (i # ks) =
      (case snd X of
         Inl e \<Rightarrow> (st1, Inl e)
       | Inr r \<Rightarrow> if snd (snd r) then (st1, Inr r) else two_opt_outer_st s st1 tr best ks)"
    by (subst two_opt_outer_st.simps, fold X_def, subst X) (simp split: sum.splits)
  have punf: "two_opt_outer s (st ! tr) best (i # ks) =
      (case pr of
         Inl e \<Rightarrow> Inl e
       | Inr r \<Rightarrow> if snd (snd r) then Inr r else two_opt_outer s (st ! tr) best ks)"
    by (simp add: pr_def)
  show ?case
  proof (cases pr)
    case (Inl e)
    with rel have "snd X = Inl e" by (simp add: st_rel_def)
    with Inl ext show ?thesis unfolding unf punf by (simp add: st_rel_def)
  next
    case (Inr r)
    with rel obtain a where a: "snd X = Inr (a, snd r)" "a < length st1" "st1 ! a = fst r"
      "a = tr \<or> length st \<le> a"
      by (auto simp: st_rel_def)
    show ?thesis
    proof (cases "snd (snd r)")
      case True
      with Inr a rel show ?thesis unfolding unf punf by simp
    next
      case False
      from Cons.IH [OF tr1(1)] have
        "st_rel st1 tr (fst (two_opt_outer_st s st1 tr best ks))
           (two_opt_outer s (st ! tr) best ks) (snd (two_opt_outer_st s st1 tr best ks))"
        by (simp add: tr1(2))
      from st_rel_step [OF this _ ext] have
        "st_rel st tr (fst (two_opt_outer_st s st1 tr best ks))
           (two_opt_outer s (st ! tr) best ks) (snd (two_opt_outer_st s st1 tr best ks))"
        by simp
      with Inr a False show ?thesis unfolding unf punf by simp
    qed
  qed
qed

lemma two_opt_while_rel:
  assumes "tr < length st"
  shows "st_rel st tr (fst (two_opt_while_st s st k tr best imp it))
           (two_opt_while s k (st ! tr) best imp it) (snd (two_opt_while_st s st k tr best imp it))"
  using assms
proof (induction "nat (k - it)" arbitrary: st tr best imp it rule: less_induct)
  case less
  show ?case
  proof (cases "imp \<and> it < k")
    case False
    have "two_opt_while_st s st k tr best imp it = (st, Inr (tr, best))"
      by (subst two_opt_while_st.simps) (rule if_not_P [OF False])
    moreover have "two_opt_while s k (st ! tr) best imp it = Inr (st ! tr, best)"
      by (subst two_opt_while.simps) (rule if_not_P [OF False])
    ultimately show ?thesis using less.prems by (simp add: st_rel_refl)
  next
    case True
    define X where "X = two_opt_outer_st s st tr best [1..<self_n s - 1]"
    define st1 where "st1 = fst X"
    define pr where "pr = two_opt_outer s (st ! tr) best [1..<self_n s - 1]"
    have X: "X = (st1, snd X)" by (simp add: st1_def)
    have rel: "st_rel st tr st1 pr (snd X)"
      unfolding st1_def pr_def X_def by (rule two_opt_outer_rel [OF less.prems])
    then obtain ext where ext: "st1 = st @ ext" unfolding st_rel_def by blast
    have unf: "two_opt_while_st s st k tr best imp it =
        (case snd X of
           Inl e \<Rightarrow> (st1, Inl e)
         | Inr r \<Rightarrow> two_opt_while_st s st1 k (fst r) (fst (snd r)) (snd (snd r)) (it + 1))"
      using True
      by (subst two_opt_while_st.simps, fold X_def, subst X) (simp split: sum.splits)
    have punf: "two_opt_while s k (st ! tr) best imp it =
        (case pr of
           Inl e \<Rightarrow> Inl e
         | Inr r \<Rightarrow> two_opt_while s k (fst r) (fst (snd r)) (snd (snd r)) (it + 1))"
      using True by (subst two_opt_while.simps) (simp add: pr_def)
    show ?thesis
    proof (cases pr)
      case (Inl e)
      with rel have "snd X = Inl e" by (simp add: st_rel_def)
      with Inl ext show ?thesis unfolding unf punf by (simp add: st_rel_def)
    next
      case (Inr r)
      with rel obtain a where a: "snd X = Inr (a, snd r)" "a < length st1" "st1 ! a = fst r"
        "a = tr \<or> length st \<le> a"
        by (auto simp: st_rel_def)
      from True have m: "nat (k - (it + 1)) < nat (k - it)" by simp
      from less.hyps [OF m a(2), of "fst (snd r)" "snd (snd r)"] have
        "st_rel st1 a (fst (two_opt_while_st s st1 k a (fst (snd r)) (snd (snd r)) (it + 1)))
           (two_opt_while s k (fst r) (fst (snd r)) (snd (snd r)) (it + 1))
           (snd (two_opt_while_st s st1 k a (fst (snd r)) (snd (snd r)) (it + 1)))"
        by (simp add: a(3))
      from st_rel_step [OF this a(4) ext] Inr a(1) show ?thesis unfolding unf punf by simp
    qed
  qed
qed

lemma scan_step_reversal:
  assumes "scan_step s pairs tr = Some t"
  shows "\<exists>p\<in>set pairs. t = reverse_segment tr (fst p) (snd p)"
proof -
  from assms obtain p where p: "find (improving s tr) pairs = Some p"
    "t = reverse_segment tr (fst p) (snd p)"
    by (auto simp: scan_step_def split: option.splits)
  from p(1) have "p \<in> set pairs" by (auto simp: find_Some_iff)
  with p(2) show ?thesis by blast
qed

lemma search_reversals:
  "\<exists>ps. set ps \<subseteq> set pairs \<and>
     first_improvement_search s pairs k tr = foldl (\<lambda>t p. reverse_segment t (fst p) (snd p)) tr ps"
proof (induction k arbitrary: tr)
  case 0
  have "set [] \<subseteq> set pairs \<and>
     first_improvement_search s pairs 0 tr = foldl (\<lambda>t p. reverse_segment t (fst p) (snd p)) tr []"
    by simp
  then show ?case by blast
next
  case (Suc k)
  show ?case
  proof (cases "scan_step s pairs tr")
    case None
    then have "set [] \<subseteq> set pairs \<and>
       first_improvement_search s pairs (Suc k) tr =
         foldl (\<lambda>t p. reverse_segment t (fst p) (snd p)) tr []"
      by simp
    then show ?thesis by blast
  next
    case (Some t)
    from scan_step_reversal [OF Some] obtain p where
      p: "p \<in> set pairs" "t = reverse_segment tr (fst p) (snd p)"
      by blast
    from Suc [of t] obtain ps where
      ps: "set ps \<subseteq> set pairs"
        "first_improvement_search s pairs k t = foldl (\<lambda>t p. reverse_segment t (fst p) (snd p)) t ps"
      by blast
    have "set (p # ps) \<subseteq> set pairs \<and>
       first_improvement_search s pairs (Suc k) tr =
         foldl (\<lambda>t p. reverse_segment t (fst p) (snd p)) tr (p # ps)"
      using Some p ps by simp
    then show ?thesis by blast
  qed
qed

text \<open>
  C10. \<open>two_opt\<close> called with the caller's list at address \<open>a\<close>: every object that existed
  before the call, the caller's list among them, is unchanged after it, whether the call
  returns or raises. It returns whenever the entries of the list are valid indices
  (otherwise \<open>calculate_tour_cost\<close> raises \<^verbatim>\<open>IndexError\<close>), and what it returns is the
  result of \<open>two_opt\<close> on list values. The tour of the result is an object created during
  the call, so it is not the caller's list; it is the initial tour after a sequence of
  reversals of contiguous segments, at position pairs the scan visits, and it has the
  entries of the initial tour with their multiplicities. Nothing is assumed about the
  initial tour.
\<close>

theorem two_opt_copies_input:
  assumes "a < length st"
  shows "\<exists>st' res. two_opt_st s st (Some a) k = (st', res) \<and> take (length st) st' = st \<and>
     (tour_ok s (st ! a) \<longrightarrow> (\<exists>ta c. res = Inr (ta, c))) \<and>
     (\<forall>e. res = Inl e \<longrightarrow> two_opt s (Some (st ! a)) k = Inl e) \<and>
     (\<forall>ta c. res = Inr (ta, c) \<longrightarrow>
        length st \<le> ta \<and> ta < length st' \<and>
        two_opt s (Some (st ! a)) k =
          Inr \<lparr>tour = st' ! ta, cost = c, algorithm = ''2-opt'', num_cities = self_n s,
               is_optimal = False, approximation_ratio = None\<rparr> \<and>
        (\<exists>ps. set ps \<subseteq> set (scan_pairs (self_n s)) \<and>
           st' ! ta = foldl (\<lambda>t p. reverse_segment t (fst p) (snd p)) (st ! a) ps) \<and>
        mset (st' ! ta) = mset (st ! a))"
proof -
  define t0 where "t0 = st ! a"
  define st1 where "st1 = st @ [t0]"
  define tr where "tr = length st"
  have tr: "tr < length st1" "st1 ! tr = t0" by (simp_all add: st1_def tr_def)
  have unf: "two_opt_st s st (Some a) k =
      (case calculate_tour_cost s t0 of
         Inl e \<Rightarrow> (st1, Inl e)
       | Inr best_cost \<Rightarrow> two_opt_while_st s st1 k tr best_cost True 0)"
    by (simp add: two_opt_st_def alloc_def st1_def tr_def t0_def split: sum.splits)
  have punf: "two_opt s (Some t0) k =
      (case calculate_tour_cost s t0 of
         Inl e \<Rightarrow> Inl e
       | Inr best_cost \<Rightarrow>
           (case two_opt_while s k t0 best_cost True 0 of
              Inl e \<Rightarrow> Inl e
            | Inr r \<Rightarrow>
                Inr \<lparr>tour = fst r, cost = snd r, algorithm = ''2-opt'', num_cities = self_n s,
                     is_optimal = False, approximation_ratio = None\<rparr>))"
    by (simp add: two_opt_def)
  show ?thesis
  proof (cases "calculate_tour_cost s t0")
    case (Inl e)
    then have "\<not> tour_ok s t0" using calculate_tour_cost_ok [of s t0] by simp
    moreover have "take (length st) st1 = st" by (simp add: st1_def)
    ultimately show ?thesis
      unfolding t0_def [symmetric] unf punf using Inl by simp
  next
    case (Inr c0)
    define W where "W = two_opt_while_st s st1 k tr c0 True 0"
    from two_opt_while_search [OF Inr, of k True 0] obtain c where
      pw: "two_opt_while s k t0 c0 True 0 =
        Inr (first_improvement_search s (scan_pairs (self_n s)) (nat k) t0, c)"
      by auto
    define t where "t = first_improvement_search s (scan_pairs (self_n s)) (nat k) t0"
    from two_opt_while_rel [OF tr(1), of s k c0 True 0]
    have "st_rel st1 tr (fst W) (Inr (t, c)) (snd W)"
      unfolding W_def tr(2) pw t_def .
    then obtain ext af where
      w: "fst W = st1 @ ext" "snd W = Inr (af, c)" "af < length (fst W)" "fst W ! af = t"
        "af = tr \<or> length st1 \<le> af"
      by (auto simp: st_rel_def)
    have W: "two_opt_st s st (Some a) k = (fst W, Inr (af, c))"
      unfolding unf using Inr w(2) by (simp add: W_def [symmetric] prod_eq_iff)
    have P: "two_opt s (Some t0) k =
        Inr \<lparr>tour = t, cost = c, algorithm = ''2-opt'', num_cities = self_n s,
             is_optimal = False, approximation_ratio = None\<rparr>"
      unfolding punf using Inr pw by (simp add: t_def)
    have r1: "take (length st) (fst W) = st" by (simp add: w(1) st1_def)
    have r2: "length st \<le> af" using w(5) by (auto simp: tr_def st1_def)
    from search_reversals [of "scan_pairs (self_n s)" s "nat k" t0]
    have r3: "\<exists>ps. set ps \<subseteq> set (scan_pairs (self_n s)) \<and>
        t = foldl (\<lambda>t p. reverse_segment t (fst p) (snd p)) t0 ps"
      unfolding t_def .
    from two_opt_while_mset [OF pw] have r4: "mset t = mset t0" by (simp add: t_def)
    show ?thesis
      unfolding t0_def [symmetric]
      by (rule exI [of _ "fst W"], rule exI [of _ "Inr (af, c)"])
        (simp add: W r1 r2 w(3,4) P r3 r4)
  qed
qed

lemma tour_ok_ex: "tour_ok S5 [4, 2, 0, 2, 1, 3]"
  by (simp add: tour_ok_def idx_ok_def S5_def M5_def np_array_int_def)

theorem two_opt_copies_input_witness:
  "(0::nat) < length [[4, 2, 0, 2, 1, 3 :: int]] \<and> tour_ok S5 [4, 2, 0, 2, 1, 3] \<and>
   (\<exists>st' ta c. two_opt_st S5 [[4, 2, 0, 2, 1, 3]] (Some 0) 1000 = (st', Inr (ta, c)) \<and>
      take 1 st' = [[4, 2, 0, 2, 1, 3]] \<and> 1 \<le> ta \<and> ta < length st' \<and>
      two_opt S5 (Some [4, 2, 0, 2, 1, 3]) 1000 =
        Inr \<lparr>tour = st' ! ta, cost = c, algorithm = ''2-opt'', num_cities = 5,
             is_optimal = False, approximation_ratio = None\<rparr> \<and>
      (\<exists>ps. set ps \<subseteq> set (scan_pairs 5) \<and>
         st' ! ta = foldl (\<lambda>t p. reverse_segment t (fst p) (snd p)) [4, 2, 0, 2, 1, 3] ps) \<and>
      mset (st' ! ta) = mset [4, 2, 0, 2, 1, 3])"
proof -
  have l: "(0::nat) < length [[4, 2, 0, 2, 1, 3 :: int]]" by simp
  from two_opt_copies_input [OF l, of S5 1000] tour_ok_ex show ?thesis
    by (auto simp: S5_def)
qed

end
